theory Spec2Isabelle
  imports Main "HOL-Library.Word"
begin

section \<open>The Neurolucida ASC lexer of MorphIO\<close>

text \<open>
  This theory embeds the lexer of the ASC reader (the file with \<open>enum class Token\<close>,
  \<open>build_lexer\<close> and \<open>class NeurolucidaLexer\<close>) and the exception registrations of the
  Python bindings (\<open>morphio.cpp\<close>).

  The lexer is written on top of lexertl, a third-party library. Its three entry points used
  by the source are modelled by their documented behaviour:
  \<^item> \<open>rules::push\<close> appends a (regular expression, id) pair; \<open>generator::build\<close> compiles the
    pairs into a DFA and \<open>minimise\<close> shrinks it, neither changing the language recognised;
  \<^item> \<open>lookup\<close> returns the longest prefix of the remaining input matched by some rule, with
    the id of the earliest pushed rule among those matching that prefix; when no rule matches,
    one character is skipped and the id is \<open>npos\<close>;
  \<^item> an \<open>siterator\<close> holds the current match and compares equal to the default-constructed
    iterator exactly when the lookup that produced it started at the end of the input.
\<close>

subsection \<open>Tokens\<close>

datatype Token =
    EOF | WS | NEWLINE | COMMENT | LPAREN | RPAREN | LSPINE | RSPINE | COMMA | PIPE
  | WORD | STRING | NUMBER
  | AXON | APICAL | DENDRITE | CELLBODY
  | COLOR | FONT | MARKER | RGB
  | GENERATED | HIGH | INCOMPLETE | LOW | NORMAL | MIDPOINT | ORIGIN

text \<open>\<open>operator+(Token)\<close>: the enumerator's value as a \<open>size_t\<close>, taken as 64 bits.\<close>

fun token_id :: "Token \<Rightarrow> 64 word" where
  "token_id EOF = 0"
| "token_id WS = 1"
| "token_id NEWLINE = 2"
| "token_id COMMENT = 3"
| "token_id LPAREN = 4"
| "token_id RPAREN = 5"
| "token_id LSPINE = 6"
| "token_id RSPINE = 7"
| "token_id COMMA = 8"
| "token_id PIPE = 9"
| "token_id WORD = 10"
| "token_id STRING = 11"
| "token_id NUMBER = 12"
| "token_id AXON = 13"
| "token_id APICAL = 14"
| "token_id DENDRITE = 15"
| "token_id CELLBODY = 16"
| "token_id COLOR = 101"
| "token_id FONT = 102"
| "token_id MARKER = 103"
| "token_id RGB = 104"
| "token_id GENERATED = 105"
| "token_id HIGH = 106"
| "token_id INCOMPLETE = 107"
| "token_id LOW = 108"
| "token_id NORMAL = 109"
| "token_id MIDPOINT = 110"
| "token_id ORIGIN = 111"

fun to_string :: "Token \<Rightarrow> string" where
  "to_string EOF = ''EOF_''"
| "to_string WS = ''WS''"
| "to_string NEWLINE = ''NEWLINE''"
| "to_string COMMENT = ''COMMENT''"
| "to_string LPAREN = ''LPAREN''"
| "to_string RPAREN = ''RPAREN''"
| "to_string LSPINE = ''LSPINE''"
| "to_string RSPINE = ''RSPINE''"
| "to_string COMMA = ''COMMA''"
| "to_string PIPE = ''PIPE''"
| "to_string WORD = ''WORD''"
| "to_string STRING = ''STRING''"
| "to_string NUMBER = ''NUMBER''"
| "to_string AXON = ''AXON''"
| "to_string APICAL = ''APICAL''"
| "to_string DENDRITE = ''DENDRITE''"
| "to_string CELLBODY = ''CELLBODY''"
| "to_string COLOR = ''COLOR''"
| "to_string FONT = ''FONT''"
| "to_string MARKER = ''MARKER''"
| "to_string RGB = ''RGB''"
| "to_string GENERATED = ''GENERATED''"
| "to_string HIGH = ''HIGH''"
| "to_string INCOMPLETE = ''INCOMPLETE''"
| "to_string LOW = ''LOW''"
| "to_string NORMAL = ''NORMAL''"
| "to_string MIDPOINT = ''MIDPOINT''"
| "to_string ORIGIN = ''ORIGIN''"

subsection \<open>Regular expressions of the rule table\<close>

text \<open>
  A character class is a list of inclusive ranges, possibly negated (\<open>[^...]\<close>).
  Characters are bytes, compared by their code.
\<close>

datatype rexp =
    NoMatch
  | EmptyWord
  | Cls bool "(char \<times> char) list"
  | Seq rexp rexp
  | Alt rexp rexp
  | Star rexp

fun in_ranges :: "char \<Rightarrow> (char \<times> char) list \<Rightarrow> bool" where
  "in_ranges c [] = False"
| "in_ranges c ((lo, hi) # rs) =
     (((of_char lo :: nat) \<le> of_char c \<and> (of_char c :: nat) \<le> of_char hi) \<or> in_ranges c rs)"

definition cls_match :: "bool \<Rightarrow> (char \<times> char) list \<Rightarrow> char \<Rightarrow> bool" where
  "cls_match neg rs c = (in_ranges c rs \<noteq> neg)"

fun nullable :: "rexp \<Rightarrow> bool" where
  "nullable NoMatch = False"
| "nullable EmptyWord = True"
| "nullable (Cls neg rs) = False"
| "nullable (Seq r s) = (nullable r \<and> nullable s)"
| "nullable (Alt r s) = (nullable r \<or> nullable s)"
| "nullable (Star r) = True"

text \<open>Sequence and choice that drop the empty language and the empty word on the left.\<close>

definition seq :: "rexp \<Rightarrow> rexp \<Rightarrow> rexp" where
  "seq r s =
     (if r = NoMatch \<or> s = NoMatch then NoMatch else if r = EmptyWord then s else Seq r s)"

definition alt :: "rexp \<Rightarrow> rexp \<Rightarrow> rexp" where
  "alt r s = (if r = NoMatch then s else if s = NoMatch then r else Alt r s)"

text \<open>The expression left to match after reading one character: one DFA transition.\<close>

fun deriv :: "char \<Rightarrow> rexp \<Rightarrow> rexp" where
  "deriv c NoMatch = NoMatch"
| "deriv c EmptyWord = NoMatch"
| "deriv c (Cls neg rs) = (if cls_match neg rs c then EmptyWord else NoMatch)"
| "deriv c (Seq r s) =
     (if nullable r then alt (seq (deriv c r) s) (deriv c s) else seq (deriv c r) s)"
| "deriv c (Alt r s) = alt (deriv c r) (deriv c s)"
| "deriv c (Star r) = seq (deriv c r) (Star r)"

definition chr :: "char \<Rightarrow> rexp" where
  "chr c = Cls False [(c, c)]"

fun lit :: "string \<Rightarrow> rexp" where
  "lit [] = EmptyWord"
| "lit [c] = chr c"
| "lit (c # cs) = Seq (chr c) (lit cs)"

definition plus :: "rexp \<Rightarrow> rexp" where
  "plus r = Seq r (Star r)"

definition opt :: "rexp \<Rightarrow> rexp" where
  "opt r = Alt r EmptyWord"

definition digit :: rexp where
  "digit = Cls False [(CHR ''0'', CHR ''9'')]"

definition blank :: rexp where
  "blank = Cls False [(CHR '' '', CHR '' ''), (CHR 0x09, CHR 0x09), (CHR 0x0D, CHR 0x0D)]"

definition sign :: rexp where
  "sign = Cls False [(CHR ''+'', CHR ''+''), (CHR ''-'', CHR ''-'')]"

definition either :: "char \<Rightarrow> char \<Rightarrow> rexp" where
  "either a b = Cls False [(a, a), (b, b)]"

definition alpha_ranges :: "(char \<times> char) list" where
  "alpha_ranges = [(CHR ''a'', CHR ''z''), (CHR ''A'', CHR ''Z'')]"

definition alnum_ranges :: "(char \<times> char) list" where
  "alnum_ranges = [(CHR ''0'', CHR ''9''), (CHR ''a'', CHR ''z''), (CHR ''A'', CHR ''Z'')]"

text \<open>A marker name followed by \<open>[0-9]*\<close>.\<close>

definition marker :: "string \<Rightarrow> rexp \<times> 64 word" where
  "marker name = (Seq (lit name) (Star digit), token_id MARKER)"

subsection \<open>The rule table\<close>

type_synonym state_machine = "(rexp \<times> 64 word) list"

text \<open>The rules in the order of the \<open>rules_.push\<close> calls of \<open>build_lexer\<close>.\<close>

definition rules :: state_machine where
  "rules =
   [ (chr (CHR 0x0A), token_id NEWLINE),
     (plus blank, token_id WS),
     (Seq (chr (CHR '';'')) (Star (Cls True [(CHR 0x0A, CHR 0x0A)])), token_id COMMENT),
     (chr (CHR ''(''), token_id LPAREN),
     (chr (CHR '')''), token_id RPAREN),
     (Seq (chr (CHR ''<'')) (Seq (Star blank) (chr (CHR ''(''))), token_id LSPINE),
     (lit '')>'', token_id RSPINE),
     (chr (CHR '',''), token_id COMMA),
     (chr (CHR ''|''), token_id PIPE),
     (lit ''Color'', token_id COLOR),
     (lit ''Font'', token_id FONT),
     (Seq (either (CHR ''A'') (CHR ''a'')) (lit ''xon''), token_id AXON),
     (Seq (either (CHR ''A'') (CHR ''a'')) (lit ''pical''), token_id APICAL),
     (Seq (either (CHR ''D'') (CHR ''d'')) (lit ''endrite''), token_id DENDRITE),
     (Seq (either (CHR ''C'') (CHR ''c''))
        (Seq (lit ''ell'')
          (Seq (opt (chr (CHR '' '')))
            (Seq (either (CHR ''B'') (CHR ''b'')) (lit ''ody'')))), token_id CELLBODY),
     marker ''Dot'',
     marker ''Plus'',
     marker ''Cross'',
     marker ''Splat'',
     marker ''Flower'',
     marker ''Circle'',
     marker ''Flower'',
     marker ''TriStar'',
     marker ''OpenStar'',
     marker ''Asterisk'',
     marker ''SnowFlake'',
     marker ''OpenCircle'',
     marker ''ShadedStar'',
     marker ''FilledStar'',
     marker ''TexacoStar'',
     marker ''MoneyGreen'',
     marker ''DarkYellow'',
     marker ''OpenSquare'',
     marker ''OpenDiamond'',
     marker ''CircleArrow'',
     marker ''CircleCross'',
     marker ''OpenQuadStar'',
     marker ''DoubleCircle'',
     marker ''FilledSquare'',
     marker ''MalteseCross'',
     marker ''FilledCircle'',
     marker ''FilledDiamond'',
     marker ''FilledQuadStar'',
     marker ''OpenUpTriangle'',
     marker ''FilledUpTriangle'',
     marker ''OpenDownTriangle'',
     marker ''FilledDownTriangle'',
     (lit ''Generated'', token_id GENERATED),
     (lit ''High'', token_id HIGH),
     (lit ''Incomplete'', token_id INCOMPLETE),
     (lit ''Low'', token_id LOW),
     (lit ''Normal'', token_id NORMAL),
     (lit ''Midpoint'', token_id MIDPOINT),
     (lit ''Origin'', token_id ORIGIN),
     (Seq (chr (CHR 0x22)) (Seq (Star (Cls True [(CHR 0x22, CHR 0x22)])) (chr (CHR 0x22))),
      token_id STRING),
     (Seq (opt sign)
        (Seq (plus digit)
          (Seq (opt (Seq (chr (CHR ''.'')) (plus digit)))
               (opt (Seq (either (CHR ''e'') (CHR ''E'')) (Seq (opt sign) (plus digit)))))),
      token_id NUMBER),
     (Seq (Cls False alpha_ranges) (plus (Cls False alnum_ranges)), token_id WORD) ]"

subsection \<open>Longest match\<close>

text \<open>
  One walk of the DFA over the remaining input. The DFA state is the list of rules still
  alive, each with what is left to match; the walk stops in the dead state (no rule alive)
  or at the end of the input. \<open>best\<close> is the last accepting position passed and the id of
  the first rule accepting there.
\<close>

definition step_rules :: "char \<Rightarrow> state_machine \<Rightarrow> state_machine" where
  "step_rules c rs = filter (\<lambda>(r, i). r \<noteq> NoMatch) (map (\<lambda>(r, i). (deriv c r, i)) rs)"

definition accepting :: "state_machine \<Rightarrow> 64 word option" where
  "accepting rs = map_option snd (find (\<lambda>(r, i). nullable r) rs)"

fun longest ::
  "state_machine \<Rightarrow> string \<Rightarrow> nat \<Rightarrow> (64 word \<times> nat) option \<Rightarrow> (64 word \<times> nat) option"
  where
  "longest rs [] n best = best"
| "longest rs (c # cs) n best =
     (let rs' = step_rules c rs;
          best' = (case accepting rs' of Some i \<Rightarrow> Some (i, Suc n) | None \<Rightarrow> best)
      in if rs' = [] then best' else longest rs' cs (Suc n) best')"

text \<open>\<open>results::npos()\<close>, the id of an unmatched character: the largest \<open>size_t\<close>.\<close>

definition npos :: "64 word" where
  "npos = 18446744073709551615"

record tok =
  id :: "64 word"
  str :: string

definition lookup :: "state_machine \<Rightarrow> string \<Rightarrow> tok \<times> string" where
  "lookup sm s =
     (case longest sm s 0 None of
        Some (i, n) \<Rightarrow> (\<lparr>id = i, str = take n s\<rparr>, drop n s)
      | None \<Rightarrow> (\<lparr>id = npos, str = take 1 s\<rparr>, drop 1 s))"

lemma longest_advances:
  "longest rs s n best = Some (i, m) \<Longrightarrow> best = Some (i, m) \<or> n < m"
proof (induction rs s n best rule: longest.induct)
  case (1 rs n best)
  then show ?case by simp
next
  case (2 rs c cs n best)
  show ?case
  proof (cases "step_rules c rs = []")
    case True
    with "2.prems" show ?thesis
      by (auto simp: Let_def split: option.splits)
  next
    case False
    with "2.prems" "2.IH" [OF refl refl False] show ?thesis
      by (fastforce simp: Let_def split: option.splits)
  qed
qed

lemma lookup_shorter: "s \<noteq> [] \<Longrightarrow> lookup sm s = (t, rest) \<Longrightarrow> length rest < length s"
proof -
  assume s: "s \<noteq> []" and l: "lookup sm s = (t, rest)"
  show ?thesis
  proof (cases "longest sm s 0 None")
    case None
    with l s show ?thesis by (auto simp: lookup_def)
  next
    case (Some p)
    obtain i m where p: "p = (i, m)" by (cases p)
    from longest_advances [of sm s 0 None i m] Some p have "0 < m" by simp
    with l s Some p show ?thesis by (auto simp: lookup_def)
  qed
qed

text \<open>
  The raw token stream from a position of the input to its end: what successive \<open>++\<close> of an
  \<open>siterator\<close> produce before it compares equal to the end iterator.
\<close>

function tokens :: "state_machine \<Rightarrow> string \<Rightarrow> tok list" where
  "tokens sm s =
     (if s = [] then [] else (case lookup sm s of (t, rest) \<Rightarrow> t # tokens sm rest))"
  by pat_completeness auto
termination
  by (relation "measure (\<lambda>(sm, s). length s)") (auto dest: lookup_shorter [OF _ sym])

declare tokens.simps [simp del]

subsection \<open>Iterators\<close>

text \<open>
  An \<open>lexertl::siterator\<close> is modelled by the raw token stream from its position to the end
  of the input: the head is the match it holds, \<open>++\<close> drops the head, and the empty stream is
  the end iterator (the default-constructed \<open>siterator\<close> of the source). The stream depends
  only on the input and the rule table, so computing it ahead is not observable.
\<close>

type_synonym siterator = "tok list"

text \<open>\<open>operator->\<close>: at the end of the input the match is empty, with the id \<open>eoi\<close> (0).\<close>

definition deref :: "siterator \<Rightarrow> tok" where
  "deref it = (case it of [] \<Rightarrow> \<lparr>id = 0, str = []\<rparr> | t # ts \<Rightarrow> t)"

subsection \<open>Errors\<close>

text \<open>The exception classes registered by the Python module.\<close>

datatype error_kind =
    MorphioError | RawDataError | UnknownFileType | SomaError
  | IDSequenceError | MultipleTrees | MissingParentError | SectionBuilderError

text \<open>
  Modelled from the spec: class \<open>ErrorMessages\<close> (\<open>morphio/errorMessages.h\<close>) is not among
  the sources. The spec says that every diagnostic carries the file path, the line number,
  what was expected, what was found and the caller's context; a diagnostic is therefore the
  name of the member function called, the path held by \<open>err_\<close> and the arguments of the call.
\<close>

datatype message =
    ERROR_EOF_REACHED string "64 word"
  | ERROR_UNEXPECTED_TOKEN string "64 word" string string string
  | ERROR_EOF_UNBALANCED_PARENS string "64 word"

datatype exn = Throw error_kind message

subsection \<open>The compiled rule table, built once\<close>

text \<open>
  \<open>build_lexer\<close> keeps the table in a function-local \<open>static\<close>. The static is threaded
  explicitly: the function takes its value and returns the table together with the new value
  of the static. An empty \<open>state_machine\<close> is one with no rule.
\<close>

definition build_lexer :: "state_machine \<Rightarrow> state_machine \<times> state_machine" where
  "build_lexer sm = (if sm \<noteq> [] then (sm, sm) else (rules, rules))"

subsection \<open>The cursor\<close>

text \<open>
  \<open>class NeurolucidaLexer\<close>. The line counters are \<open>size_t\<close>, taken as 64 bits. \<open>state()\<close>,
  called when \<open>debug_\<close> is set, only prints to the standard output and is left out.
  Every member function returns its result, or the exception it throws, together with the
  object as it is afterwards.
\<close>

record NeurolucidaLexer =
  debug :: bool
  err :: string
  current :: siterator
  "next" :: siterator
  current_line_num :: "64 word"
  next_line_num :: "64 word"

definition new_lexer :: "string \<Rightarrow> bool \<Rightarrow> NeurolucidaLexer" where
  "new_lexer path dbg =
     \<lparr>debug = dbg, err = path, current = [], next = [],
      current_line_num = 1, next_line_num = 1\<rparr>"

definition line_num :: "NeurolucidaLexer \<Rightarrow> 64 word" where
  "line_num L = current_line_num L"

definition peek :: "NeurolucidaLexer \<Rightarrow> siterator" where
  "peek L = next L"

text \<open>\<open>skip_whitespace\<close>: the loop with its local \<open>endlines\<close>, then the function.\<close>

fun skip_loop :: "siterator \<Rightarrow> 64 word \<Rightarrow> 64 word \<times> siterator" where
  "skip_loop [] endlines = (endlines, [])"
| "skip_loop (t # ts) endlines =
     (if id t = token_id NEWLINE then skip_loop ts (endlines + 1)
      else if id t = token_id WS \<or> id t = token_id COMMENT then skip_loop ts endlines
      else (endlines, t # ts))"

definition skip_whitespace :: "siterator \<Rightarrow> 64 word \<times> siterator" where
  "skip_whitespace iter = skip_loop iter 0"

definition ended :: "NeurolucidaLexer \<Rightarrow> bool" where
  "ended L = (current L = [])"

definition consume :: "NeurolucidaLexer \<Rightarrow> (exn + siterator) \<times> NeurolucidaLexer" where
  "consume L =
     (if ended L then (Inl (Throw RawDataError (ERROR_EOF_REACHED (err L) (line_num L))), L)
      else
        let L1 = L\<lparr>current := next L, current_line_num := next_line_num L\<rparr>;
            L2 = (if next L1 \<noteq> []
                  then (case skip_whitespace (tl (next L1)) of
                          (n, it) \<Rightarrow> L1\<lparr>next := it, next_line_num := next_line_num L1 + n\<rparr>)
                  else L1)
        in (Inr (current L2), L2))"

definition expect :: "Token \<Rightarrow> string \<Rightarrow> NeurolucidaLexer \<Rightarrow> (exn + unit) \<times> NeurolucidaLexer"
  where
  "expect t msg L =
     (if id (deref (current L)) \<noteq> token_id t
      then (Inl (Throw RawDataError
                  (ERROR_UNEXPECTED_TOKEN (err L) (line_num L) (to_string t)
                     (str (deref (current L))) msg)), L)
      else (Inr (), L))"

text \<open>\<open>consume(Token t, const std::string& msg = "")\<close>.\<close>

definition consume_tok ::
  "Token \<Rightarrow> string \<Rightarrow> NeurolucidaLexer \<Rightarrow> (exn + siterator) \<times> NeurolucidaLexer" where
  "consume_tok t msg L =
     (case (if msg \<noteq> [] then expect t msg L else expect t ''Consume'' L) of
        (Inl e, L') \<Rightarrow> (Inl e, L')
      | (Inr u, L') \<Rightarrow> consume L')"

definition start_parse ::
  "state_machine \<Rightarrow> string \<Rightarrow> NeurolucidaLexer
     \<Rightarrow> ((exn + unit) \<times> NeurolucidaLexer) \<times> state_machine" where
  "start_parse static input L =
     (case build_lexer static of
        (sm, static') \<Rightarrow>
          let L1 = L\<lparr>current := tokens sm input, next := tokens sm input\<rparr> in
          (case skip_whitespace (current L1) of
             (n_skipped, it) \<Rightarrow>
               let L2 = L1\<lparr>current := it,
                          current_line_num := current_line_num L1 + n_skipped,
                          next_line_num := next_line_num L1 + n_skipped\<rparr>
               in (case consume L2 of
                     (Inl e, L3) \<Rightarrow> ((Inl e, L3), static')
                   | (Inr it', L3) \<Rightarrow> ((Inr (), L3), static'))))"

text \<open>
  The loops that call \<open>consume\<close> stop: a successful \<open>consume\<close> that does not leave the cursor
  at the end shortens the lookahead stream.
\<close>

definition remaining :: "NeurolucidaLexer \<Rightarrow> nat" where
  "remaining L = (if current L = [] then 0 else Suc (length (next L)))"

lemma skip_loop_length: "skip_loop it n = (m, it') \<Longrightarrow> length it' \<le> length it"
  by (induction it n rule: skip_loop.induct) (auto split: if_splits)

lemma consume_remaining:
  "consume L = (Inr it, L') \<Longrightarrow> remaining L' < remaining L"
proof -
  assume c: "consume L = (Inr it, L')"
  then have ne: "current L \<noteq> []"
    by (auto simp: consume_def ended_def split: if_splits)
  show ?thesis
  proof (cases "next L")
    case Nil
    with c ne show ?thesis
      by (auto simp: consume_def ended_def remaining_def)
  next
    case (Cons t ts)
    obtain n it' where sk: "skip_whitespace ts = (n, it')"
      by (cases "skip_whitespace ts")
    then have "length it' \<le> length ts"
      by (auto simp: skip_whitespace_def dest: skip_loop_length)
    moreover from Cons have "length (next L) = Suc (length ts)"
      by simp
    moreover from c ne Cons sk have "next L' = it'" and "current L' \<noteq> []"
      by (auto simp: consume_def ended_def Let_def)
    ultimately show ?thesis
      using ne by (simp add: remaining_def)
  qed
qed

function consume_until :: "Token \<Rightarrow> NeurolucidaLexer \<Rightarrow> (exn + unit) \<times> NeurolucidaLexer"
  where
  "consume_until endpoint L =
     (case consume L of
        (Inl e, L') \<Rightarrow> (Inl e, L')
      | (Inr it, L') \<Rightarrow>
          if id (deref it) \<noteq> token_id endpoint then consume_until endpoint L'
          else (Inr (), L'))"
  by pat_completeness auto
termination
  by (relation "measure (\<lambda>(endpoint, L). remaining L)")
     (auto dest: consume_remaining [OF sym])

declare consume_until.simps [simp del]

text \<open>
  \<open>consume_until_balanced_paren\<close>: the \<open>while\<close> loop with its local \<open>opening_count\<close>
  (a \<open>size_t\<close>, so \<open>++\<close> and \<open>--\<close> wrap around), then the function.
\<close>

function balanced_loop ::
  "64 word \<Rightarrow> NeurolucidaLexer \<Rightarrow> (exn + unit) \<times> NeurolucidaLexer" where
  "balanced_loop opening_count L =
     (if opening_count \<noteq> 0 then
        (case consume L of
           (Inl e, L') \<Rightarrow> (Inl e, L')
         | (Inr it, L') \<Rightarrow>
             let i = id (deref it);
                 opening_count' =
                   (if i = token_id RPAREN then opening_count - 1
                    else if i = token_id LPAREN then opening_count + 1
                    else opening_count)
             in if ended L'
                then (Inl (Throw RawDataError
                            (ERROR_EOF_UNBALANCED_PARENS (err L') (line_num L'))), L')
                else balanced_loop opening_count' L')
      else (Inr (), L))"
  by pat_completeness auto
termination
  by (relation "measure (\<lambda>(opening_count, L). remaining L)")
     (auto dest: consume_remaining [OF sym])

declare balanced_loop.simps [simp del]

definition consume_until_balanced_paren ::
  "NeurolucidaLexer \<Rightarrow> (exn + unit) \<times> NeurolucidaLexer" where
  "consume_until_balanced_paren L =
     (case balanced_loop 1 L of
        (Inl e, L') \<Rightarrow> (Inl e, L')
      | (Inr u, L') \<Rightarrow>
          (case consume_tok RPAREN ''consume_until_balanced_paren should end in RPAREN'' L' of
             (Inl e, L'') \<Rightarrow> (Inl e, L'')
           | (Inr it, L'') \<Rightarrow> (Inr (), L'')))"

subsection \<open>Notions used to state the properties\<close>

text \<open>The tokens the cursor never means to surface: whitespace, newlines and comments.\<close>

definition trivia :: "tok \<Rightarrow> bool" where
  "trivia t = (id t = token_id WS \<or> id t = token_id NEWLINE \<or> id t = token_id COMMENT)"

definition newlines :: "tok list \<Rightarrow> nat" where
  "newlines ts = length (filter (\<lambda>t. id t = token_id NEWLINE) ts)"

text \<open>
  The tokens that successive calls of \<open>consume()\<close> make current, given the lookahead
  stream: its head as it is, then the tokens behind it that are not trivia.
\<close>

fun surfaced :: "siterator \<Rightarrow> tok list" where
  "surfaced [] = []"
| "surfaced (t # ts) = t # filter (\<lambda>u. \<not> trivia u) ts"

text \<open>
  The parenthesis depth after a run of tokens that follows an opening parenthesis: 1, plus
  one for every \<open>LPAREN\<close>, minus one for every \<open>RPAREN\<close>.
\<close>

definition paren_depth :: "tok list \<Rightarrow> int" where
  "paren_depth ts =
     1 + int (length (filter (\<lambda>t. id t = token_id LPAREN) ts))
       - int (length (filter (\<lambda>t. id t = token_id RPAREN) ts))"

text \<open>The same count from any starting depth, and the counter after one token.\<close>

definition depth_from :: "nat \<Rightarrow> tok list \<Rightarrow> int" where
  "depth_from d ts =
     int d + int (length (filter (\<lambda>t. id t = token_id LPAREN) ts))
       - int (length (filter (\<lambda>t. id t = token_id RPAREN) ts))"

definition count_step :: "nat \<Rightarrow> tok \<Rightarrow> nat" where
  "count_step n t =
     (if id t = token_id RPAREN then n - 1 else if id t = token_id LPAREN then n + 1 else n)"

text \<open>The cursor after \<open>k\<close> successive calls of \<open>consume()\<close>.\<close>

definition consumes :: "nat \<Rightarrow> NeurolucidaLexer \<Rightarrow> NeurolucidaLexer" where
  "consumes k L = ((\<lambda>L. snd (consume L)) ^^ k) L"

subsection \<open>The language of a rule and the longest match\<close>

text \<open>
  What the tokenizer is meant to compute, stated without derivatives: the words a regular
  expression denotes, the id of the earliest pushed rule that denotes a word, and the
  longest non-empty prefix of the input that some rule denotes.
\<close>

inductive_set star :: "string set \<Rightarrow> string set" for A :: "string set" where
  none: "[] \<in> star A"
| more: "u \<in> A \<Longrightarrow> v \<in> star A \<Longrightarrow> u @ v \<in> star A"

fun lang :: "rexp \<Rightarrow> string set" where
  "lang NoMatch = {}"
| "lang EmptyWord = {[]}"
| "lang (Cls neg rs) = {[c] | c. cls_match neg rs c}"
| "lang (Seq r s) = (\<Union>u \<in> lang r. (@) u ` lang s)"
| "lang (Alt r s) = lang r \<union> lang s"
| "lang (Star r) = star (lang r)"

definition accepts :: "state_machine \<Rightarrow> string \<Rightarrow> 64 word option" where
  "accepts rs w = map_option snd (find (\<lambda>(r, i). w \<in> lang r) rs)"

definition munch :: "state_machine \<Rightarrow> string \<Rightarrow> (64 word \<times> nat) option \<Rightarrow> bool" where
  "munch rs s res =
     (case res of
        None \<Rightarrow> \<forall>m. 0 < m \<and> m \<le> length s \<longrightarrow> accepts rs (take m s) = None
      | Some (i, m) \<Rightarrow>
          0 < m \<and> m \<le> length s \<and> accepts rs (take m s) = Some i \<and>
          (\<forall>m'. m < m' \<and> m' \<le> length s \<longrightarrow> accepts rs (take m' s) = None))"

subsection \<open>Line numbers in step with the raw stream\<close>

text \<open>
  The cursor is in step with the raw stream when each of its two iterators is a suffix of
  the stream, its line counter is 1 plus the number of \<open>NEWLINE\<close> tokens before that suffix,
  and the lookahead is not a trivia token.
\<close>

definition synced :: "tok list \<Rightarrow> NeurolucidaLexer \<Rightarrow> bool" where
  "synced raw L \<longleftrightarrow>
     (\<exists>p. raw = p @ current L \<and> current_line_num L = 1 + of_nat (newlines p)) \<and>
     (\<exists>q. raw = q @ next L \<and> next_line_num L = 1 + of_nat (newlines q)) \<and>
     (next L = [] \<or> \<not> trivia (hd (next L)))"

subsection \<open>The exceptions of the Python module\<close>







subsection \<open>A whole parse\<close>


subsection \<open>Spellings\<close>

text \<open>
  The spellings of the neurite-type words accepted by the four rules
  \<open>[Aa]xon\<close>, \<open>[Aa]pical\<close>, \<open>[Dd]endrite\<close> and \<open>[Cc]ell ?[Bb]ody\<close>, each with its token.
\<close>

definition neurite_spellings :: "(string \<times> Token) list" where
  "neurite_spellings =
     [(''Axon'', AXON), (''axon'', AXON),
      (''Apical'', APICAL), (''apical'', APICAL),
      (''Dendrite'', DENDRITE), (''dendrite'', DENDRITE),
      (''CellBody'', CELLBODY), (''Cellbody'', CELLBODY),
      (''cellBody'', CELLBODY), (''cellbody'', CELLBODY),
      (''Cell Body'', CELLBODY), (''Cell body'', CELLBODY),
      (''cell Body'', CELLBODY), (''cell body'', CELLBODY)]"

section \<open>Properties of the cursor\<close>

lemma skip_loop_eq:
  "skip_loop it n = (n + of_nat (newlines (takeWhile trivia it)), dropWhile trivia it)"
  by (induction it arbitrary: n) (auto simp: trivia_def newlines_def)

lemma skip_whitespace_eq:
  "skip_whitespace it = (of_nat (newlines (takeWhile trivia it)), dropWhile trivia it)"
  by (simp add: skip_whitespace_def skip_loop_eq)

lemma consume_ended:
  "ended L \<Longrightarrow>
   consume L = (Inl (Throw RawDataError (ERROR_EOF_REACHED (err L) (line_num L))), L)"
  by (simp add: consume_def)

lemma consume_not_ended:
  "\<not> ended L \<Longrightarrow>
   consume L =
     (Inr (next L),
      L\<lparr>current := next L, current_line_num := next_line_num L,
        next := dropWhile trivia (tl (next L)),
        next_line_num := next_line_num L + of_nat (newlines (takeWhile trivia (tl (next L))))\<rparr>)"
  by (cases "next L") (simp_all add: consume_def Let_def skip_whitespace_eq newlines_def)

text \<open>
  Claim C3. \<open>consume()\<close> throws a \<open>RawDataError\<close> with the end-of-input diagnostic exactly
  when the cursor has ended, and then leaves the cursor as it was. Otherwise the lookahead
  becomes the current token, with its line counter, and the new lookahead is the rest of the
  raw stream behind the old lookahead with the leading whitespace, newline and comment tokens
  dropped, their newlines added to the lookahead line counter.
\<close>

theorem consume_advance:
  "((\<exists>e. fst (consume L) = Inl e) \<longleftrightarrow> ended L) \<and>
   (ended L \<longrightarrow>
      consume L = (Inl (Throw RawDataError (ERROR_EOF_REACHED (err L) (line_num L))), L)) \<and>
   (\<not> ended L \<longrightarrow>
      (\<exists>L'. consume L = (Inr (current L'), L') \<and>
            current L' = next L \<and>
            current_line_num L' = next_line_num L \<and>
            next L' = dropWhile trivia (tl (next L)) \<and>
            (next L' \<noteq> [] \<longrightarrow> \<not> trivia (hd (next L'))) \<and>
            next_line_num L' =
              next_line_num L + of_nat (newlines (takeWhile trivia (tl (next L)))) \<and>
            err L' = err L \<and> debug L' = debug L))"
proof (cases "ended L")
  case True
  then show ?thesis by (simp add: consume_ended)
next
  case False
  have "dropWhile trivia (tl (next L)) \<noteq> [] \<longrightarrow>
        \<not> trivia (hd (dropWhile trivia (tl (next L))))"
    by (simp add: hd_dropWhile)
  with False show ?thesis by (simp add: consume_not_ended)
qed

theorem consume_advance_witness:
  "ended (new_lexer ''f'' False) \<and>
   consume (new_lexer ''f'' False) =
     (Inl (Throw RawDataError (ERROR_EOF_REACHED ''f'' 1)), new_lexer ''f'' False) \<and>
   \<not> ended \<lparr>debug = False, err = ''f'',
             current = [\<lparr>id = 4, str = ''(''\<rparr>, \<lparr>id = 12, str = ''1''\<rparr>,
                        \<lparr>id = 2, str = [CHR 0x0A]\<rparr>, \<lparr>id = 5, str = '')''\<rparr>],
             next = [\<lparr>id = 12, str = ''1''\<rparr>, \<lparr>id = 2, str = [CHR 0x0A]\<rparr>,
                     \<lparr>id = 5, str = '')''\<rparr>],
             current_line_num = 1, next_line_num = 1\<rparr> \<and>
   snd (consume \<lparr>debug = False, err = ''f'',
             current = [\<lparr>id = 4, str = ''(''\<rparr>, \<lparr>id = 12, str = ''1''\<rparr>,
                        \<lparr>id = 2, str = [CHR 0x0A]\<rparr>, \<lparr>id = 5, str = '')''\<rparr>],
             next = [\<lparr>id = 12, str = ''1''\<rparr>, \<lparr>id = 2, str = [CHR 0x0A]\<rparr>,
                     \<lparr>id = 5, str = '')''\<rparr>],
             current_line_num = 1, next_line_num = 1\<rparr>) =
     \<lparr>debug = False, err = ''f'',
      current = [\<lparr>id = 12, str = ''1''\<rparr>, \<lparr>id = 2, str = [CHR 0x0A]\<rparr>,
                 \<lparr>id = 5, str = '')''\<rparr>],
      next = [\<lparr>id = 5, str = '')''\<rparr>],
      current_line_num = 1, next_line_num = 2\<rparr>"
proof -
  let ?E = "new_lexer ''f'' False"
  let ?L = "\<lparr>debug = False, err = ''f'',
             current = [\<lparr>id = 4, str = ''(''\<rparr>, \<lparr>id = 12, str = ''1''\<rparr>,
                        \<lparr>id = 2, str = [CHR 0x0A]\<rparr>, \<lparr>id = 5, str = '')''\<rparr>],
             next = [\<lparr>id = 12, str = ''1''\<rparr>, \<lparr>id = 2, str = [CHR 0x0A]\<rparr>,
                     \<lparr>id = 5, str = '')''\<rparr>],
             current_line_num = 1, next_line_num = 1\<rparr>"
  have e: "ended ?E"
    by (simp add: ended_def new_lexer_def)
  have l: "\<not> ended ?L"
    by (simp add: ended_def)
  from consume_advance [of ?E] e
  have 1: "consume ?E = (Inl (Throw RawDataError (ERROR_EOF_REACHED ''f'' 1)), ?E)"
    by (simp add: new_lexer_def line_num_def)
  from consume_advance [of ?L] l obtain L' where
    c: "consume ?L = (Inr (current L'), L')" and
    f: "current L' = next ?L" "current_line_num L' = next_line_num ?L"
       "next L' = dropWhile trivia (tl (next ?L))"
       "next_line_num L' =
          next_line_num ?L + of_nat (newlines (takeWhile trivia (tl (next ?L))))"
       "err L' = err ?L" "debug L' = debug ?L"
    by blast
  from f have "L' = \<lparr>debug = False, err = ''f'',
      current = [\<lparr>id = 12, str = ''1''\<rparr>, \<lparr>id = 2, str = [CHR 0x0A]\<rparr>,
                 \<lparr>id = 5, str = '')''\<rparr>],
      next = [\<lparr>id = 5, str = '')''\<rparr>],
      current_line_num = 1, next_line_num = 2\<rparr>"
    by (cases L') (simp add: trivia_def newlines_def)
  with c e l 1 show ?thesis by simp
qed

text \<open>
  Claim C4. \<open>expect(t, msg)\<close> throws a \<open>RawDataError\<close> exactly when the id of the current
  token differs from that of \<open>t\<close>; the diagnostic is built from the current line number, the
  name of \<open>t\<close>, the lexeme of the current token and \<open>msg\<close>; and in both cases the cursor is
  afterwards what it was before.
\<close>

theorem expect_check:
  "((\<exists>e. fst (expect t msg L) = Inl e) \<longleftrightarrow> id (deref (current L)) \<noteq> token_id t) \<and>
   (id (deref (current L)) \<noteq> token_id t \<longrightarrow>
      fst (expect t msg L) =
        Inl (Throw RawDataError
              (ERROR_UNEXPECTED_TOKEN (err L) (line_num L) (to_string t)
                 (str (deref (current L))) msg))) \<and>
   snd (expect t msg L) = L"
  by (simp add: expect_def)

theorem expect_check_witness:
  "id (deref (current ((new_lexer ''f'' False)\<lparr>current := [\<lparr>id = 4, str = ''(''\<rparr>]\<rparr>)))
     \<noteq> token_id RPAREN \<and>
   fst (expect RPAREN ''ctx'' ((new_lexer ''f'' False)\<lparr>current := [\<lparr>id = 4, str = ''(''\<rparr>]\<rparr>)) =
     Inl (Throw RawDataError (ERROR_UNEXPECTED_TOKEN ''f'' 1 ''RPAREN'' ''('' ''ctx''))"
proof -
  let ?L = "(new_lexer ''f'' False)\<lparr>current := [\<lparr>id = 4, str = ''(''\<rparr>]\<rparr>"
  have h: "id (deref (current ?L)) \<noteq> token_id RPAREN"
    by (simp add: deref_def new_lexer_def)
  with expect_check [of RPAREN "''ctx''" ?L]
  have "fst (expect RPAREN ''ctx'' ?L) =
        Inl (Throw RawDataError
              (ERROR_UNEXPECTED_TOKEN (err ?L) (line_num ?L) (to_string RPAREN)
                 (str (deref (current ?L))) ''ctx''))"
    by blast
  with h show ?thesis
    by (simp add: deref_def new_lexer_def line_num_def)
qed

section \<open>Properties of the rule table\<close>




section \<open>The matcher computes the longest match\<close>

lemma nullable_lang: "nullable r \<longleftrightarrow> [] \<in> lang r"
  by (induction r) (auto intro: star.none)

lemma lang_seq: "lang (seq r s) = lang (Seq r s)"
  by (auto simp: seq_def)

lemma lang_alt: "lang (alt r s) = lang r \<union> lang s"
  by (auto simp: alt_def)

lemma star_Cons:
  "c # w \<in> star A \<longleftrightarrow> (\<exists>u v. w = u @ v \<and> c # u \<in> A \<and> v \<in> star A)"
proof
  assume "c # w \<in> star A"
  then show "\<exists>u v. w = u @ v \<and> c # u \<in> A \<and> v \<in> star A"
  proof (induction "c # w" arbitrary: w rule: star.induct)
    case (more u v)
    show ?case
    proof (cases u)
      case Nil
      with more show ?thesis by simp
    next
      case (Cons a u')
      with more.hyps(1,2,4) show ?thesis by auto
    qed
  qed
next
  assume "\<exists>u v. w = u @ v \<and> c # u \<in> A \<and> v \<in> star A"
  then obtain u v where "w = u @ v" "c # u \<in> A" "v \<in> star A"
    by blast
  with star.more [of "c # u" A v] show "c # w \<in> star A"
    by simp
qed

lemma lang_Seq_iff:
  "w \<in> lang (Seq r s) \<longleftrightarrow> (\<exists>u v. w = u @ v \<and> u \<in> lang r \<and> v \<in> lang s)"
  by (simp add: image_iff) blast

lemma lang_deriv: "w \<in> lang (deriv c r) \<longleftrightarrow> c # w \<in> lang r"
proof (induction r arbitrary: w)
  case (Seq r s)
  have "c # w \<in> lang (Seq r s) \<longleftrightarrow>
          ([] \<in> lang r \<and> c # w \<in> lang s) \<or>
          (\<exists>u v. w = u @ v \<and> c # u \<in> lang r \<and> v \<in> lang s)"
    unfolding lang_Seq_iff by (auto simp: Cons_eq_append_conv)
  with Seq show ?case
    by (auto simp: lang_seq lang_alt nullable_lang lang_Seq_iff simp del: lang.simps(4))
next
  case (Star r)
  then show ?case
    by (auto simp: lang_seq star_Cons lang_Seq_iff simp del: lang.simps(4))
qed (auto simp: lang_alt)

lemma accepting_accepts: "accepting rs = accepts rs []"
  by (simp add: accepting_def accepts_def nullable_lang)

lemma accepts_step: "accepts (step_rules c rs) w = accepts rs (c # w)"
proof (induction rs)
  case Nil
  then show ?case by (simp add: step_rules_def accepts_def)
next
  case (Cons p rs)
  obtain r i where p: "p = (r, i)" by (cases p)
  from Cons have IH: "accepts (step_rules c rs) w = accepts rs (c # w)" .
  show ?case
  proof (cases "deriv c r = NoMatch")
    case True
    then have "c # w \<notin> lang r"
      using lang_deriv [of w c r] by simp
    with True p IH show ?thesis
      by (simp add: step_rules_def accepts_def)
  next
    case False
    with p IH show ?thesis
      by (simp add: step_rules_def accepts_def lang_deriv)
  qed
qed

lemma accepts_dead: "step_rules c rs = [] \<Longrightarrow> accepts rs (c # w) = None"
  using accepts_step [of c rs w] by (simp add: accepts_def)

lemma longest_munch:
  "(\<exists>i m. 0 < m \<and> m \<le> length s \<and> accepts rs (take m s) = Some i \<and>
          (\<forall>m'. m < m' \<and> m' \<le> length s \<longrightarrow> accepts rs (take m' s) = None) \<and>
          longest rs s n best = Some (i, n + m)) \<or>
   ((\<forall>m. 0 < m \<and> m \<le> length s \<longrightarrow> accepts rs (take m s) = None) \<and>
    longest rs s n best = best)"
proof (induction s arbitrary: rs n best)
  case Nil
  then show ?case by simp
next
  case (Cons c cs)
  define rs' where "rs' = step_rules c rs"
  define best' where
    "best' = (case accepting rs' of Some i \<Rightarrow> Some (i, Suc n) | None \<Rightarrow> best)"
  have shift: "accepts rs (take (Suc m) (c # cs)) = accepts rs' (take m cs)" for m
    by (simp add: rs'_def accepts_step)
  have one: "accepts rs (take (Suc 0) (c # cs)) = accepting rs'"
    by (simp add: rs'_def accepts_step accepting_accepts)
  show ?case
  proof (cases "rs' = []")
    case True
    then have "accepts rs (take m (c # cs)) = None" if "0 < m" for m
      using that accepts_dead [of c rs] by (cases m) (simp_all add: rs'_def)
    moreover from True have "longest rs (c # cs) n best = best"
      by (simp add: rs'_def [symmetric] accepting_def)
    ultimately show ?thesis by blast
  next
    case False
    then have unfold: "longest rs (c # cs) n best = longest rs' cs (Suc n) best'"
      by (simp add: rs'_def [symmetric] best'_def Let_def)
    from Cons.IH [of rs' "Suc n" best'] consider
      (found) i m where "0 < m" "m \<le> length cs" "accepts rs' (take m cs) = Some i"
        "\<forall>m'. m < m' \<and> m' \<le> length cs \<longrightarrow> accepts rs' (take m' cs) = None"
        "longest rs' cs (Suc n) best' = Some (i, Suc n + m)"
      | (none) "\<forall>m. 0 < m \<and> m \<le> length cs \<longrightarrow> accepts rs' (take m cs) = None"
        "longest rs' cs (Suc n) best' = best'"
      by blast
    then show ?thesis
    proof cases
      case found
      have "accepts rs (take m' (c # cs)) = None"
        if "Suc m < m' \<and> m' \<le> length (c # cs)" for m'
      proof -
        from that obtain k where "m' = Suc k" "m < k" "k \<le> length cs"
          by (cases m') auto
        with found(4) shift [of k] show ?thesis by simp
      qed
      with found(1,2,3,5) shift [of m] unfold
      have "0 < Suc m \<and> Suc m \<le> length (c # cs) \<and>
            accepts rs (take (Suc m) (c # cs)) = Some i \<and>
            (\<forall>m'. Suc m < m' \<and> m' \<le> length (c # cs) \<longrightarrow>
               accepts rs (take m' (c # cs)) = None) \<and>
            longest rs (c # cs) n best = Some (i, n + Suc m)"
        by simp
      then show ?thesis by blast
    next
      case none
      have later: "accepts rs (take m' (c # cs)) = None"
        if "Suc 0 < m' \<and> m' \<le> length (c # cs)" for m'
      proof -
        from that obtain k where "m' = Suc k" "0 < k" "k \<le> length cs"
          by (cases m') auto
        with none(1) shift [of k] show ?thesis by simp
      qed
      show ?thesis
      proof (cases "accepting rs'")
        case None
        have "accepts rs (take m (c # cs)) = None" if "0 < m \<and> m \<le> length (c # cs)" for m
        proof (cases "m = Suc 0")
          case True
          with one None show ?thesis by simp
        next
          case False
          with that later [of m] show ?thesis by simp
        qed
        moreover from None none(2) unfold have "longest rs (c # cs) n best = best"
          by (simp add: best'_def)
        ultimately show ?thesis by blast
      next
        case (Some i)
        with none(2) unfold have "longest rs (c # cs) n best = Some (i, n + Suc 0)"
          by (simp add: best'_def)
        with one Some later
        have "0 < Suc 0 \<and> Suc 0 \<le> length (c # cs) \<and>
              accepts rs (take (Suc 0) (c # cs)) = Some i \<and>
              (\<forall>m'. Suc 0 < m' \<and> m' \<le> length (c # cs) \<longrightarrow>
                 accepts rs (take m' (c # cs)) = None) \<and>
              longest rs (c # cs) n best = Some (i, n + Suc 0)"
          by simp
        then show ?thesis by blast
      qed
    qed
  qed
qed

text \<open>
  The walk over the derivatives computes the longest match: the result of \<open>longest\<close> is
  the longest non-empty prefix denoted by some rule, with the id of the earliest pushed
  rule denoting it, and \<open>None\<close> when no non-empty prefix is denoted by any rule.
\<close>

theorem longest_maximal_munch: "munch rs s (longest rs s 0 None)"
  using longest_munch [of s rs 0 None]
  by (auto simp: munch_def split: option.splits)

section \<open>Properties of the tokenizer\<close>

lemmas rx_defs = chr_def plus_def opt_def digit_def blank_def sign_def either_def marker_def

lemmas scan_defs = rules_def rx_defs seq_def alt_def step_rules_def accepting_def cls_match_def
  alpha_ranges_def alnum_ranges_def Let_def

lemma nullable_seq: "nullable (seq r s) = (nullable r \<and> nullable s)"
  by (auto simp: seq_def)

lemma nullable_alt: "nullable (alt r s) = (nullable r \<or> nullable s)"
  by (auto simp: alt_def)

lemma nullable_lit: "nullable (lit s) = (s = [])"
  by (induction s rule: lit.induct) (simp_all add: chr_def)

text \<open>The characters that are a token on their own.\<close>

lemma single_char_accept:
  "(\<exists>(r, i) \<in> set rules. nullable (deriv c r)) \<longleftrightarrow>
     in_ranges c [(CHR 0x0A, CHR 0x0A)] \<or>
     in_ranges c [(CHR '' '', CHR '' ''), (CHR 0x09, CHR 0x09), (CHR 0x0D, CHR 0x0D)] \<or>
     in_ranges c [(CHR '';'', CHR '';'')] \<or> in_ranges c [(CHR ''('', CHR ''('')] \<or>
     in_ranges c [(CHR '')'', CHR '')'')] \<or> in_ranges c [(CHR '','', CHR '','')] \<or>
     in_ranges c [(CHR ''|'', CHR ''|'')] \<or> in_ranges c [(CHR ''0'', CHR ''9'')]"
  by (simp add: rules_def rx_defs cls_match_def alpha_ranges_def alnum_ranges_def
        nullable_seq nullable_alt nullable_lit del: in_ranges.simps)

lemma longest_single:
  "longest rs [c] 0 None =
     (case accepting (step_rules c rs) of Some i \<Rightarrow> Some (i, Suc 0) | None \<Rightarrow> None)"
  by (simp add: Let_def split: option.split)

lemma accepting_None:
  "\<not> (\<exists>(r, i) \<in> set rs. nullable (deriv c r)) \<Longrightarrow> accepting (step_rules c rs) = None"
  by (auto simp: accepting_def step_rules_def find_None_iff)

text \<open>
  Claim C10. The last rule, \<open>[a-zA-Z][0-9a-zA-Z]+\<close>, needs two characters. A single
  letter is in the language of no rule: on an input that is a single letter the tokenizer
  skips the letter with the id \<open>npos\<close>, which is not the id of \<open>WORD\<close>. Two letters are
  a \<open>WORD\<close>.
\<close>

theorem single_letter_not_word:
  assumes "in_ranges c alpha_ranges"
  shows "(\<forall>(r, i) \<in> set rules. [c] \<notin> lang r) \<and>
         tokens rules [c] = [\<lparr>id = npos, str = [c]\<rparr>] \<and>
         npos \<noteq> token_id WORD \<and>
         tokens rules ''ab'' = [\<lparr>id = token_id WORD, str = ''ab''\<rparr>]"
proof -
  from assms have n: "\<not> (\<exists>(r, i) \<in> set rules. nullable (deriv c r))"
    unfolding single_char_accept by (auto simp: alpha_ranges_def)
  have "longest rules [c] 0 None = None"
    unfolding longest_single using accepting_None [OF n] by simp
  then have "lookup rules [c] = (\<lparr>id = npos, str = [c]\<rparr>, [])"
    by (simp add: lookup_def)
  then have 1: "tokens rules [c] = [\<lparr>id = npos, str = [c]\<rparr>]"
    by (simp add: tokens.simps [of rules "[c]"] tokens.simps [of rules "[]"])
  have "lookup rules ''ab'' = (\<lparr>id = token_id WORD, str = ''ab''\<rparr>, [])"
    by (simp add: lookup_def scan_defs)
  then have 2: "tokens rules ''ab'' = [\<lparr>id = token_id WORD, str = ''ab''\<rparr>]"
    by (simp add: tokens.simps [of rules "''ab''"] tokens.simps [of rules "[]"])
  from n have "\<forall>(r, i) \<in> set rules. [c] \<notin> lang r"
    by (auto simp: lang_deriv [symmetric] nullable_lang)
  with 1 2 show ?thesis by (simp add: npos_def)
qed

theorem single_letter_not_word_witness:
  "in_ranges (CHR ''x'') alpha_ranges \<and>
   tokens rules ''x'' = [\<lparr>id = npos, str = ''x''\<rparr>] \<and> npos \<noteq> token_id WORD"
proof -
  have h: "in_ranges (CHR ''x'') alpha_ranges"
    by (simp add: alpha_ranges_def)
  from single_letter_not_word [OF h] h show ?thesis by simp
qed

lemma tokens_Nil: "tokens sm [] = []"
  by (simp add: tokens.simps)

lemma tokens_step:
  "longest sm (w @ rest) 0 None = Some (i, length w) \<Longrightarrow> w \<noteq> [] \<Longrightarrow>
   tokens sm (w @ rest) = \<lparr>id = i, str = w\<rparr> # tokens sm rest"
  by (simp add: tokens.simps [of sm "w @ rest"] lookup_def)

lemma longest_neurite:
  assumes "rest = [] \<or> \<not> in_ranges (hd rest) alnum_ranges"
  shows "\<forall>(w, t) \<in> set neurite_spellings.
           longest rules (w @ rest) 0 None = Some (token_id t, length w)"
proof (cases rest)
  case Nil
  then show ?thesis by (simp add: neurite_spellings_def scan_defs)
next
  case (Cons c cs)
  with assms have "\<not> in_ranges c alnum_ranges" by simp
  with Cons show ?thesis by (simp add: neurite_spellings_def scan_defs)
qed

lemma longest_two_spaces:
  "longest rules (''Cell  Body'' @ rest) 0 None = Some (token_id WORD, 4)"
  by (simp add: scan_defs)

lemma lang_chr: "lang (chr c) = {[c]}"
  by (auto simp: chr_def cls_match_def)

lemma lang_either: "lang (either a b) = {[a], [b]}"
  by (auto simp: either_def cls_match_def)

lemma lang_lit: "lang (lit s) = {s}"
  by (induction s rule: lit.induct) (auto simp: lang_chr)

lemma lang_opt_chr: "lang (opt (chr c)) = {[], [c]}"
  by (auto simp: opt_def lang_chr)

lemmas lang_finite = lang.simps(4) lang_either lang_lit lang_opt_chr

lemma lang_axon:
  "lang (Seq (either (CHR ''A'') (CHR ''a'')) (lit ''xon'')) = {''Axon'', ''axon''}"
  by (simp only: lang_finite) auto

lemma lang_apical:
  "lang (Seq (either (CHR ''A'') (CHR ''a'')) (lit ''pical'')) = {''Apical'', ''apical''}"
  by (simp only: lang_finite) auto

lemma lang_dendrite:
  "lang (Seq (either (CHR ''D'') (CHR ''d'')) (lit ''endrite'')) = {''Dendrite'', ''dendrite''}"
  by (simp only: lang_finite) auto

lemma lang_cellbody:
  "lang (Seq (either (CHR ''C'') (CHR ''c''))
        (Seq (lit ''ell'')
          (Seq (opt (chr (CHR '' '')))
            (Seq (either (CHR ''B'') (CHR ''b'')) (lit ''ody''))))) =
   {''CellBody'', ''Cellbody'', ''cellBody'', ''cellbody'',
    ''Cell Body'', ''Cell body'', ''cell Body'', ''cell body''}"
  by (simp only: lang_finite) auto

lemma neurite_rule:
  assumes "(r, token_id t) \<in> set rules" and "t \<in> {AXON, APICAL, DENDRITE, CELLBODY}"
  shows "\<forall>w \<in> lang r. (w, t) \<in> set neurite_spellings"
proof -
  from assms(2) consider "t = AXON" | "t = APICAL" | "t = DENDRITE" | "t = CELLBODY"
    by blast
  then show ?thesis
  proof cases
    case 1
    with assms(1) have "r = Seq (either (CHR ''A'') (CHR ''a'')) (lit ''xon'')"
      by (simp add: rules_def marker_def)
    with 1 show ?thesis
      by (simp only: lang_axon) (simp add: neurite_spellings_def)
  next
    case 2
    with assms(1) have "r = Seq (either (CHR ''A'') (CHR ''a'')) (lit ''pical'')"
      by (simp add: rules_def marker_def)
    with 2 show ?thesis
      by (simp only: lang_apical) (simp add: neurite_spellings_def)
  next
    case 3
    with assms(1) have "r = Seq (either (CHR ''D'') (CHR ''d'')) (lit ''endrite'')"
      by (simp add: rules_def marker_def)
    with 3 show ?thesis
      by (simp only: lang_dendrite) (simp add: neurite_spellings_def)
  next
    case 4
    with assms(1) have "r = Seq (either (CHR ''C'') (CHR ''c''))
        (Seq (lit ''ell'')
          (Seq (opt (chr (CHR '' '')))
            (Seq (either (CHR ''B'') (CHR ''b'')) (lit ''ody''))))"
      by (simp add: rules_def marker_def)
    with 4 show ?thesis
      by (simp only: lang_cellbody) (simp add: neurite_spellings_def)
  qed
qed

lemma accepts_rule:
  "accepts rs w = Some i \<Longrightarrow> \<exists>r. (r, i) \<in> set rs \<and> w \<in> lang r"
  by (auto simp: accepts_def find_Some_iff) (metis nth_mem)

lemma neurite_token_spelling:
  assumes "s \<noteq> []" and "t \<in> {AXON, APICAL, DENDRITE, CELLBODY}"
    and "id (fst (lookup rules s)) = token_id t"
  shows "(str (fst (lookup rules s)), t) \<in> set neurite_spellings"
proof (cases "longest rules s 0 None")
  case None
  with assms(2,3) show ?thesis
    by (auto simp: lookup_def npos_def)
next
  case (Some p)
  obtain i m where p: "p = (i, m)" by (cases p)
  with Some assms(3) have i: "i = token_id t" and l: "str (fst (lookup rules s)) = take m s"
    by (simp_all add: lookup_def)
  from longest_maximal_munch [of rules s] Some p
  have "accepts rules (take m s) = Some i"
    by (simp add: munch_def)
  then obtain r where "(r, i) \<in> set rules" "take m s \<in> lang r"
    using accepts_rule by blast
  with neurite_rule [OF _ assms(2), of r] i l show ?thesis
    by auto
qed

lemma rules_not_nullable: "accepts rules [] = None"
  by (simp add: accepting_accepts [symmetric] accepting_def rules_def rx_defs find_None_iff
        nullable_lit) 

text \<open>
  Claim C1, as the code has it. Only the first letter of each neurite-type word (and the
  \<open>B\<close> of \<open>Body\<close>) may be in either case; the other letters are lower case, and \<open>Cell\<close>
  and \<open>Body\<close> may be separated by one space or none. When such a spelling is not directly
  followed by a letter or a digit, the tokenizer produces the corresponding token \<open>AXON\<close>,
  \<open>APICAL\<close>, \<open>DENDRITE\<close> or \<open>CELLBODY\<close> with that spelling as its lexeme. Conversely,
  whenever the tokenizer produces one of these four tokens, its lexeme is one of these
  spellings. With two spaces between \<open>Cell\<close> and \<open>Body\<close> the first token is the \<open>WORD\<close>
  \<open>Cell\<close>.
\<close>

theorem neurite_words_first_letter_case:
  "(rest = [] \<or> \<not> in_ranges (hd rest) alnum_ranges \<longrightarrow>
      (\<forall>(w, t) \<in> set neurite_spellings.
          tokens rules (w @ rest) = \<lparr>id = token_id t, str = w\<rparr> # tokens rules rest)) \<and>
   (\<forall>t \<in> {AXON, APICAL, DENDRITE, CELLBODY}.
      s \<noteq> [] \<and> id (fst (lookup rules s)) = token_id t \<longrightarrow>
        (str (fst (lookup rules s)), t) \<in> set neurite_spellings) \<and>
   tokens rules (''Cell  Body'' @ rest) =
     \<lparr>id = token_id WORD, str = ''Cell''\<rparr> # tokens rules (''  Body'' @ rest)"
proof -
  have 1: "rest = [] \<or> \<not> in_ranges (hd rest) alnum_ranges \<longrightarrow>
      (\<forall>(w, t) \<in> set neurite_spellings.
          tokens rules (w @ rest) = \<lparr>id = token_id t, str = w\<rparr> # tokens rules rest)"
  proof (rule impI)
    assume h: "rest = [] \<or> \<not> in_ranges (hd rest) alnum_ranges"
    have "tokens rules (w @ rest) = \<lparr>id = token_id t, str = w\<rparr> # tokens rules rest"
      if "(w, t) \<in> set neurite_spellings" for w t
    proof -
      from that longest_neurite [OF h]
      have "longest rules (w @ rest) 0 None = Some (token_id t, length w)" by blast
      moreover from that have "w \<noteq> []" by (auto simp: neurite_spellings_def)
      ultimately show ?thesis by (rule tokens_step)
    qed
    then show "\<forall>(w, t) \<in> set neurite_spellings.
          tokens rules (w @ rest) = \<lparr>id = token_id t, str = w\<rparr> # tokens rules rest"
      by blast
  qed
  have 2: "\<forall>t \<in> {AXON, APICAL, DENDRITE, CELLBODY}.
      s \<noteq> [] \<and> id (fst (lookup rules s)) = token_id t \<longrightarrow>
        (str (fst (lookup rules s)), t) \<in> set neurite_spellings"
    using neurite_token_spelling [of s] by blast
  have 3: "tokens rules (''Cell  Body'' @ rest) =
           \<lparr>id = token_id WORD, str = ''Cell''\<rparr> # tokens rules (''  Body'' @ rest)"
    using tokens_step [of rules "''Cell''" "''  Body'' @ rest" "token_id WORD"]
      longest_two_spaces [of rest] by simp
  from 1 2 3 show ?thesis by (intro conjI)
qed

theorem neurite_words_first_letter_case_witness:
  "tokens rules ''Axon ('' =
     [\<lparr>id = token_id AXON, str = ''Axon''\<rparr>, \<lparr>id = token_id WS, str = '' ''\<rparr>,
      \<lparr>id = token_id LPAREN, str = ''(''\<rparr>] \<and>
   tokens rules ''cell Body'' = [\<lparr>id = token_id CELLBODY, str = ''cell Body''\<rparr>] \<and>
   id (fst (lookup rules ''Axon ('')) = token_id AXON \<and>
   (str (fst (lookup rules ''Axon ('')), AXON) \<in> set neurite_spellings"
proof -
  have h1: "'' ('' = [] \<or> \<not> in_ranges (hd '' ('') alnum_ranges"
    by (simp add: alnum_ranges_def)
  have h2: "([]::string) = [] \<or> \<not> in_ranges (hd []) alnum_ranges"
    by simp
  have m1: "(''Axon'', AXON) \<in> set neurite_spellings"
    and m2: "(''cell Body'', CELLBODY) \<in> set neurite_spellings"
    by (simp_all add: neurite_spellings_def)
  from neurite_words_first_letter_case [of "'' (''"] h1 m1
  have "tokens rules (''Axon'' @ '' ('') =
          \<lparr>id = token_id AXON, str = ''Axon''\<rparr> # tokens rules '' (''"
    by blast
  moreover have "tokens rules '' ('' =
      [\<lparr>id = token_id WS, str = '' ''\<rparr>, \<lparr>id = token_id LPAREN, str = ''(''\<rparr>]"
  proof -
    have "longest rules ('' '' @ ''('') 0 None = Some (token_id WS, length '' '')"
      and "longest rules (''('' @ []) 0 None = Some (token_id LPAREN, length ''('')"
      by (simp_all add: scan_defs)
    from tokens_step [OF this(1)] tokens_step [OF this(2)] show ?thesis
      by (simp add: tokens_Nil)
  qed
  moreover from neurite_words_first_letter_case [of "[]"] h2 m2
  have "tokens rules (''cell Body'' @ []) =
          \<lparr>id = token_id CELLBODY, str = ''cell Body''\<rparr> # tokens rules []"
    by blast
  moreover have l: "lookup rules ''Axon ('' = (\<lparr>id = token_id AXON, str = ''Axon''\<rparr>, '' ('')"
  proof -
    have "longest rules ''Axon ('' 0 None = Some (token_id AXON, 4)"
      by (simp add: scan_defs)
    then show ?thesis by (simp add: lookup_def)
  qed
  moreover from l neurite_words_first_letter_case [of _ "''Axon (''"]
  have "(str (fst (lookup rules ''Axon ('')), AXON) \<in> set neurite_spellings"
    by simp
  ultimately show ?thesis by (simp add: tokens_Nil)
qed

text \<open>
  Claim C1, as stated, fails: the spelling \<open>AXON\<close>, a mixture of cases that the claim
  covers, is tokenized as a \<open>WORD\<close>, not as \<open>AXON\<close>.
\<close>

theorem upper_case_axon_is_word:
  "tokens rules ''AXON'' = [\<lparr>id = token_id WORD, str = ''AXON''\<rparr>] \<and>
   token_id WORD \<noteq> token_id AXON"
proof -
  have "longest rules (''AXON'' @ []) 0 None = Some (token_id WORD, length ''AXON'')"
    by (simp add: scan_defs)
  from tokens_step [OF this] show ?thesis by (simp add: tokens_Nil)
qed

section \<open>Line numbers\<close>

lemma tokens_comment_header:
  "tokens rules [CHR '';'', CHR ''c'', CHR 0x0A, CHR ''(''] =
     [\<lparr>id = token_id COMMENT, str = '';c''\<rparr>, \<lparr>id = token_id NEWLINE, str = [CHR 0x0A]\<rparr>,
      \<lparr>id = token_id LPAREN, str = ''(''\<rparr>]"
proof -
  have "longest rules ('';c'' @ [CHR 0x0A, CHR ''('']) 0 None
          = Some (token_id COMMENT, length '';c'')"
    and "longest rules ([CHR 0x0A] @ ''('') 0 None = Some (token_id NEWLINE, length [CHR 0x0A])"
    and "longest rules (''('' @ []) 0 None = Some (token_id LPAREN, length ''('')"
    by (simp_all add: scan_defs)
  from tokens_step [OF this(1)] tokens_step [OF this(2)] tokens_step [OF this(3)]
  show ?thesis by (simp add: tokens_Nil)
qed

text \<open>
  Claim C5 does not hold of the code. \<open>start_parse\<close> skips the leading trivia on \<open>current_\<close>
  only and adds the newlines skipped to both counters; \<open>consume()\<close> then copies \<open>next_\<close>,
  still at the first raw token, into \<open>current_\<close> and counts the same newlines again while
  it skips on \<open>next_\<close>. On the input of a comment line followed by an opening parenthesis,
  the raw stream is \<open>COMMENT NEWLINE LPAREN\<close>, so the parenthesis is on line 2; after
  \<open>start_parse\<close> and one \<open>consume()\<close> the current token is that parenthesis and
  \<open>line_num()\<close> is 3. (After \<open>start_parse\<close> alone the current token is the comment, which
  is on line 1, with \<open>line_num()\<close> 2.)
\<close>

theorem line_num_after_comment_header:
  "tokens rules [CHR '';'', CHR ''c'', CHR 0x0A, CHR ''(''] =
     [\<lparr>id = token_id COMMENT, str = '';c''\<rparr>, \<lparr>id = token_id NEWLINE, str = [CHR 0x0A]\<rparr>,
      \<lparr>id = token_id LPAREN, str = ''(''\<rparr>] \<and>
   1 + newlines [\<lparr>id = token_id COMMENT, str = '';c''\<rparr>,
                 \<lparr>id = token_id NEWLINE, str = [CHR 0x0A]\<rparr>] = 2 \<and>
   fst (start_parse [] [CHR '';'', CHR ''c'', CHR 0x0A, CHR ''('']
          (new_lexer ''f'' False)) =
     (Inr (),
      \<lparr>debug = False, err = ''f'',
       current = [\<lparr>id = token_id COMMENT, str = '';c''\<rparr>,
                  \<lparr>id = token_id NEWLINE, str = [CHR 0x0A]\<rparr>,
                  \<lparr>id = token_id LPAREN, str = ''(''\<rparr>],
       next = [\<lparr>id = token_id LPAREN, str = ''(''\<rparr>],
       current_line_num = 2, next_line_num = 3\<rparr>) \<and>
   consume (snd (fst (start_parse [] [CHR '';'', CHR ''c'', CHR 0x0A, CHR ''('']
                        (new_lexer ''f'' False)))) =
     (Inr [\<lparr>id = token_id LPAREN, str = ''(''\<rparr>],
      \<lparr>debug = False, err = ''f'',
       current = [\<lparr>id = token_id LPAREN, str = ''(''\<rparr>],
       next = [],
       current_line_num = 3, next_line_num = 3\<rparr>) \<and>
   line_num (snd (consume (snd (fst (start_parse [] [CHR '';'', CHR ''c'', CHR 0x0A, CHR ''('']
                        (new_lexer ''f'' False)))))) = 3"
proof -
  note t = tokens_comment_header
  have s: "fst (start_parse [] [CHR '';'', CHR ''c'', CHR 0x0A, CHR ''('']
          (new_lexer ''f'' False)) =
     (Inr (),
      \<lparr>debug = False, err = ''f'',
       current = [\<lparr>id = token_id COMMENT, str = '';c''\<rparr>,
                  \<lparr>id = token_id NEWLINE, str = [CHR 0x0A]\<rparr>,
                  \<lparr>id = token_id LPAREN, str = ''(''\<rparr>],
       next = [\<lparr>id = token_id LPAREN, str = ''(''\<rparr>],
       current_line_num = 2, next_line_num = 3\<rparr>)"
    by (simp add: start_parse_def build_lexer_def t new_lexer_def skip_whitespace_def
          consume_def ended_def Let_def)
  have c: "consume \<lparr>debug = False, err = ''f'',
       current = [\<lparr>id = token_id COMMENT, str = '';c''\<rparr>,
                  \<lparr>id = token_id NEWLINE, str = [CHR 0x0A]\<rparr>,
                  \<lparr>id = token_id LPAREN, str = ''(''\<rparr>],
       next = [\<lparr>id = token_id LPAREN, str = ''(''\<rparr>],
       current_line_num = 2, next_line_num = 3\<rparr> =
     (Inr [\<lparr>id = token_id LPAREN, str = ''(''\<rparr>],
      \<lparr>debug = False, err = ''f'',
       current = [\<lparr>id = token_id LPAREN, str = ''(''\<rparr>],
       next = [],
       current_line_num = 3, next_line_num = 3\<rparr>)"
    by (simp add: consume_def ended_def skip_whitespace_def Let_def)
  have n: "1 + newlines [\<lparr>id = token_id COMMENT, str = '';c''\<rparr>,
                 \<lparr>id = token_id NEWLINE, str = [CHR 0x0A]\<rparr>] = 2"
    by (simp add: newlines_def)
  from t s c n show ?thesis by (simp add: line_num_def)
qed

lemma newlines_append: "newlines (xs @ ys) = newlines xs + newlines ys"
  by (simp add: newlines_def)

lemma newlines_non_trivia: "\<not> trivia t \<Longrightarrow> newlines (t # ts) = newlines ts"
  by (simp add: newlines_def trivia_def)

lemma consume_synced:
  assumes "synced raw L"
  shows "synced raw (snd (consume L))"
proof (cases "ended L")
  case True
  with assms show ?thesis by (simp add: consume_ended)
next
  case False
  from assms obtain q where q: "raw = q @ next L"
    "next_line_num L = 1 + of_nat (newlines q)"
    and h: "next L = [] \<or> \<not> trivia (hd (next L))"
    by (auto simp: synced_def)
  let ?L = "snd (consume L)"
  have c: "current ?L = next L" "current_line_num ?L = next_line_num L"
    "next ?L = dropWhile trivia (tl (next L))"
    "next_line_num ?L = next_line_num L + of_nat (newlines (takeWhile trivia (tl (next L))))"
    using False by (simp_all add: consume_not_ended)
  have "\<exists>q'. raw = q' @ next ?L \<and> next_line_num ?L = 1 + of_nat (newlines q')"
  proof (cases "next L")
    case Nil
    with q c show ?thesis by (simp add: newlines_def)
  next
    case (Cons t ts)
    with h have nt: "\<not> trivia t" by simp
    let ?q = "q @ t # takeWhile trivia ts"
    from q(1) Cons have "raw = ?q @ dropWhile trivia ts"
      by simp
    moreover from nt have "newlines ?q = newlines q + newlines (takeWhile trivia ts)"
      by (simp add: newlines_append newlines_non_trivia)
    ultimately show ?thesis
      using q(2) c Cons by (intro exI [of _ ?q]) simp
  qed
  moreover have "next ?L = [] \<or> \<not> trivia (hd (next ?L))"
    unfolding c(3) using hd_dropWhile [of trivia "tl (next L)"] by blast
  ultimately show ?thesis
    using q c by (auto simp: synced_def)
qed

lemma consumes_synced: "synced raw L \<Longrightarrow> synced raw (consumes k L)"
  by (induction k) (simp_all add: consumes_def consume_synced)

lemma skip_whitespace_none:
  "it = [] \<or> \<not> trivia (hd it) \<Longrightarrow> skip_whitespace it = (0, it)"
  by (cases it) (auto simp: skip_whitespace_eq newlines_def)

lemma start_parse_synced:
  assumes "raw = tokens (fst (build_lexer sm)) input" and "raw = [] \<or> \<not> trivia (hd raw)"
  shows "synced raw (snd (fst (start_parse sm input (new_lexer path dbg))))"
proof -
  obtain t s' where b: "build_lexer sm = (t, s')"
    by (cases "build_lexer sm")
  with assms have raw: "tokens t input = raw" by simp
  let ?L2 = "(new_lexer path dbg)\<lparr>current := raw, next := raw\<rparr>"
  have "synced raw ?L2"
    using assms(2) by (simp add: synced_def new_lexer_def newlines_def)
  then have "synced raw (snd (consume ?L2))"
    by (rule consume_synced)
  moreover have "snd (fst (start_parse sm input (new_lexer path dbg))) = snd (consume ?L2)"
    using b raw skip_whitespace_none [OF assms(2)]
    by (cases "consume ?L2")
       (auto simp: start_parse_def Let_def new_lexer_def split: sum.splits)
  ultimately show ?thesis by simp
qed

text \<open>
  The slip is confined to leading trivia. \<open>consume()\<close> keeps a cursor in step with the raw
  stream, and \<open>start_parse\<close> leaves it in step when the stream does not begin with a
  trivia token: then, after any number of calls of \<open>consume()\<close>, \<open>line_num()\<close> is 1 plus
  the number of \<open>NEWLINE\<close> tokens before the current token.
\<close>

lemma line_numbers_without_leading_trivia:
  assumes "raw = tokens (fst (build_lexer sm)) input" and "raw = [] \<or> \<not> trivia (hd raw)"
  shows "\<exists>p. raw = p @ current (consumes k (snd (fst (start_parse sm input (new_lexer path dbg)))))
            \<and> line_num (consumes k (snd (fst (start_parse sm input (new_lexer path dbg)))))
                = 1 + of_nat (newlines p)"
  using consumes_synced [OF start_parse_synced [OF assms], of k path dbg]
  by (auto simp: synced_def line_num_def)

section \<open>Balanced parentheses\<close>

lemma paren_depth_from: "paren_depth ts = depth_from 1 ts"
  by (simp add: paren_depth_def depth_from_def)

lemma loop_zero: "balanced_loop 0 L = (Inr (), L)"
  by (simp add: balanced_loop.simps)

lemma loop_ended:
  "d \<noteq> 0 \<Longrightarrow> ended L \<Longrightarrow>
   balanced_loop d L = (Inl (Throw RawDataError (ERROR_EOF_REACHED (err L) (line_num L))), L)"
  by (simp add: balanced_loop.simps [of d L] consume_ended)

lemma loop_end:
  "d \<noteq> 0 \<Longrightarrow> \<not> ended L \<Longrightarrow> next L = [] \<Longrightarrow>
   balanced_loop d L =
     (Inl (Throw RawDataError
            (ERROR_EOF_UNBALANCED_PARENS (err L) (line_num (snd (consume L))))),
      snd (consume L))"
  by (simp add: balanced_loop.simps [of d L] consume_not_ended Let_def ended_def deref_def)

lemma loop_step:
  "d \<noteq> 0 \<Longrightarrow> \<not> ended L \<Longrightarrow> next L = t # ts \<Longrightarrow>
   balanced_loop d L =
     balanced_loop
       (if id t = token_id RPAREN then d - 1
        else if id t = token_id LPAREN then d + 1 else d)
       (snd (consume L))"
  by (simp add: balanced_loop.simps [of d L] consume_not_ended Let_def ended_def deref_def)

lemma surfaced_dropWhile: "surfaced (dropWhile trivia ts) = filter (\<lambda>u. \<not> trivia u) ts"
  by (induction ts) simp_all

lemma surfaced_step:
  "\<not> ended L \<Longrightarrow> next L = t # ts \<Longrightarrow>
   surfaced (next L) = t # surfaced (next (snd (consume L)))"
  by (simp add: consume_not_ended surfaced_dropWhile)

lemma step_not_ended: "\<not> ended L \<Longrightarrow> next L = t # ts \<Longrightarrow> \<not> ended (snd (consume L))"
  by (simp add: consume_not_ended ended_def)

lemma step_current:
  "\<not> ended L \<Longrightarrow> current (snd (consume L)) = next L"
  by (simp add: consume_not_ended)

lemma consumes_Suc: "consumes (Suc k) L = consumes k (snd (consume L))"
  by (simp add: consumes_def funpow_Suc_right del: funpow.simps)

lemma consumes_0: "consumes 0 L = L"
  by (simp add: consumes_def)

lemma step_err: "err (snd (consume L)) = err L"
  by (cases "ended L") (simp_all add: consume_ended consume_not_ended)

text \<open>The counter after one token, read as a number: no wrap-around below the bound.\<close>

lemma unat_count_step:
  fixes d :: "64 word"
  assumes "d \<noteq> 0" and "unat d + 1 < 2 ^ 64"
  shows "unat (if id t = token_id RPAREN then d - 1
               else if id t = token_id LPAREN then d + 1 else d) = count_step (unat d) t"
proof -
  from assms(1) have "unat (d - 1) = unat d - 1"
    by (simp add: unat_minus_one)
  moreover have "unat (d + 1) = unat d + 1"
  proof -
    from assms(2) have "unat d + unat (1 :: 64 word) < 2 ^ LENGTH(64)"
      by simp
    then have "unat (d + 1) = unat d + unat (1 :: 64 word)"
      by (rule unat_add_lem [THEN iffD1])
    then show ?thesis by simp
  qed
  ultimately show ?thesis
    by (simp add: count_step_def)
qed

lemma depth_from_step: "0 < n \<Longrightarrow> depth_from (count_step n t) ts = depth_from n (t # ts)"
  by (auto simp: depth_from_def count_step_def)

lemma depth_from_single: "0 < n \<Longrightarrow> depth_from n [t] = int (count_step n t)"
  by (auto simp: depth_from_def count_step_def)

lemma count_step_zero:
  "0 < n \<Longrightarrow> count_step n t = 0 \<Longrightarrow> id t = token_id RPAREN"
  by (auto simp: count_step_def split: if_splits)

lemma count_step_le: "count_step n t \<le> Suc n"
  by (auto simp: count_step_def)

text \<open>The loop, when the depth never reaches 0: it stops at the end of the input.\<close>

lemma loop_unbalanced:
  assumes "d \<noteq> 0" and "\<not> ended L"
    and "unat d + length (surfaced (next L)) < 2 ^ 64"
    and "\<forall>k. 0 < k \<and> k \<le> length (surfaced (next L)) \<longrightarrow>
             depth_from (unat d) (take k (surfaced (next L))) \<noteq> 0"
  shows "balanced_loop d L =
     (Inl (Throw RawDataError
            (ERROR_EOF_UNBALANCED_PARENS (err L)
               (line_num (consumes (Suc (length (surfaced (next L)))) L)))),
      consumes (Suc (length (surfaced (next L)))) L)"
  using assms
proof (induction "surfaced (next L)" arbitrary: d L)
  case Nil
  then have "next L = []"
    by (cases "next L") simp_all
  with Nil show ?case
    by (simp add: loop_end consumes_Suc consumes_0)
next
  case (Cons t S)
  from Cons.hyps(2) obtain ts where n: "next L = t # ts"
    by (cases "next L") auto
  define L1 where "L1 = snd (consume L)"
  define d1 where "d1 = (if id t = token_id RPAREN then d - 1
            else if id t = token_id LPAREN then d + 1 else d)"
  have sf: "surfaced (next L) = t # S"
    using Cons.hyps(2) by simp
  with Cons.prems(2) n have S: "S = surfaced (next L1)"
    using surfaced_step [of L t ts] by (simp add: L1_def)
  from Cons.prems(1) have pos: "0 < unat d"
    by (simp add: unat_gt_0)
  from Cons.prems(3) sf have b: "unat d + Suc (length S) < 2 ^ 64"
    by simp
  then have u: "unat d1 = count_step (unat d) t"
    unfolding d1_def using unat_count_step [OF Cons.prems(1)] by simp
  have "0 < (1::nat) \<and> 1 \<le> length (surfaced (next L))"
    using sf by simp
  with Cons.prems(4) have "depth_from (unat d) (take 1 (surfaced (next L))) \<noteq> 0"
    by blast
  with sf pos have "count_step (unat d) t \<noteq> 0"
    by (simp add: depth_from_single)
  with u have d1: "d1 \<noteq> 0"
    by auto
  have e1: "\<not> ended L1"
    unfolding L1_def using Cons.prems(2) n by (rule step_not_ended)
  from b u count_step_le [of "unat d" t] S
  have b1: "unat d1 + length (surfaced (next L1)) < 2 ^ 64"
    by simp
  have h1: "\<forall>k. 0 < k \<and> k \<le> length (surfaced (next L1)) \<longrightarrow>
               depth_from (unat d1) (take k (surfaced (next L1))) \<noteq> 0"
  proof (intro allI impI)
    fix k assume k: "0 < k \<and> k \<le> length (surfaced (next L1))"
    with S sf have "0 < Suc k \<and> Suc k \<le> length (surfaced (next L))"
      by simp
    with Cons.prems(4) have "depth_from (unat d) (take (Suc k) (surfaced (next L))) \<noteq> 0"
      by blast
    with pos u S sf show "depth_from (unat d1) (take k (surfaced (next L1))) \<noteq> 0"
      by (simp add: depth_from_step)
  qed
  have "balanced_loop d L = balanced_loop d1 L1"
    unfolding d1_def L1_def by (rule loop_step [OF Cons.prems(1,2) n])
  also have "\<dots> = (Inl (Throw RawDataError
            (ERROR_EOF_UNBALANCED_PARENS (err L1)
               (line_num (consumes (Suc (length (surfaced (next L1)))) L1)))),
      consumes (Suc (length (surfaced (next L1)))) L1)"
    by (rule Cons.hyps(1) [OF S d1 e1 b1 h1])
  also have "consumes (Suc (length (surfaced (next L1)))) L1 =
             consumes (Suc (length (surfaced (next L)))) L"
    using S sf by (simp add: consumes_Suc [of _ L] L1_def)
  also have "err L1 = err L"
    by (simp add: L1_def step_err)
  finally show ?case .
qed

text \<open>The loop, when the depth first reaches 0 at the \<open>k\<close>-th token: it stops there.\<close>

lemma loop_balanced:
  assumes "d \<noteq> 0" and "\<not> ended L"
    and "unat d + length (surfaced (next L)) < 2 ^ 64"
    and "0 < k" and "k \<le> length (surfaced (next L))"
    and "depth_from (unat d) (take k (surfaced (next L))) = 0"
    and "\<forall>j. 0 < j \<and> j < k \<longrightarrow> depth_from (unat d) (take j (surfaced (next L))) \<noteq> 0"
  shows "balanced_loop d L = (Inr (), consumes k L) \<and>
         \<not> ended (consumes k L) \<and>
         deref (current (consumes k L)) = surfaced (next L) ! (k - 1) \<and>
         id (surfaced (next L) ! (k - 1)) = token_id RPAREN"
  using assms
proof (induction "surfaced (next L)" arbitrary: d L k)
  case Nil
  then show ?case by simp
next
  case (Cons t S)
  from Cons.hyps(2) obtain ts where n: "next L = t # ts"
    by (cases "next L") auto
  define L1 where "L1 = snd (consume L)"
  define d1 where "d1 = (if id t = token_id RPAREN then d - 1
            else if id t = token_id LPAREN then d + 1 else d)"
  have sf: "surfaced (next L) = t # S"
    using Cons.hyps(2) by simp
  with Cons.prems(2) n have S: "S = surfaced (next L1)"
    using surfaced_step [of L t ts] by (simp add: L1_def)
  from Cons.prems(1) have pos: "0 < unat d"
    by (simp add: unat_gt_0)
  from Cons.prems(3) sf have b: "unat d + Suc (length S) < 2 ^ 64"
    by simp
  then have u: "unat d1 = count_step (unat d) t"
    unfolding d1_def using unat_count_step [OF Cons.prems(1)] by simp
  have e1: "\<not> ended L1"
    unfolding L1_def using Cons.prems(2) n by (rule step_not_ended)
  have c1: "current L1 = t # ts"
    using Cons.prems(2) n by (simp add: L1_def step_current)
  have step: "balanced_loop d L = balanced_loop d1 L1"
    unfolding d1_def L1_def by (rule loop_step [OF Cons.prems(1,2) n])
  show ?case
  proof (cases "k = 1")
    case True
    with Cons.prems(6) sf pos have z: "count_step (unat d) t = 0"
      by (simp add: depth_from_single)
    with u have "d1 = 0"
      by (simp add: unat_eq_zero)
    with step have "balanced_loop d L = (Inr (), L1)"
      by (simp add: loop_zero)
    moreover have "consumes k L = L1"
      using True by (simp add: consumes_Suc [of 0 L] consumes_0 L1_def)
    moreover from pos z have "id t = token_id RPAREN"
      by (rule count_step_zero)
    ultimately show ?thesis
      using True e1 c1 sf by (simp add: deref_def)
  next
    case False
    with Cons.prems(4) obtain k' where k: "k = Suc k'" and k': "0 < k'"
      by (cases k) auto
    from k k' have "0 < (1::nat) \<and> 1 < k"
      by simp
    with Cons.prems(7) have "depth_from (unat d) (take 1 (surfaced (next L))) \<noteq> 0"
      by blast
    with sf pos have "count_step (unat d) t \<noteq> 0"
      by (simp add: depth_from_single)
    with u have d1: "d1 \<noteq> 0"
      by auto
    from b u count_step_le [of "unat d" t] S
    have b1: "unat d1 + length (surfaced (next L1)) < 2 ^ 64"
      by simp
    from Cons.prems(5) k sf S have kl: "k' \<le> length (surfaced (next L1))"
      by simp
    from Cons.prems(6) k sf S pos u
    have z1: "depth_from (unat d1) (take k' (surfaced (next L1))) = 0"
      by (simp add: depth_from_step)
    have h1: "\<forall>j. 0 < j \<and> j < k' \<longrightarrow>
                 depth_from (unat d1) (take j (surfaced (next L1))) \<noteq> 0"
    proof (intro allI impI)
      fix j assume "0 < j \<and> j < k'"
      with k have "0 < Suc j \<and> Suc j < k"
        by simp
      with Cons.prems(7) have "depth_from (unat d) (take (Suc j) (surfaced (next L))) \<noteq> 0"
        by blast
      with pos u S sf show "depth_from (unat d1) (take j (surfaced (next L1))) \<noteq> 0"
        by (simp add: depth_from_step)
    qed
    note IH = Cons.hyps(1) [OF S d1 e1 b1 k' kl z1 h1]
    have "consumes k' L1 = consumes k L"
      using k by (simp add: consumes_Suc [of _ L] L1_def)
    moreover have "surfaced (next L1) ! (k' - 1) = surfaced (next L) ! (k - 1)"
      using k k' sf S by (cases k') simp_all
    ultimately show ?thesis
      using IH step by simp
  qed
qed

text \<open>The loop, when it exits normally: the current token is an \<open>RPAREN\<close>.\<close>

lemma loop_exit:
  assumes "d \<noteq> 0" and "\<not> ended L"
    and "unat d + length (surfaced (next L)) < 2 ^ 64"
    and "balanced_loop d L = (Inr (), L')"
  shows "\<not> ended L' \<and> id (deref (current L')) = token_id RPAREN"
  using assms
proof (induction "surfaced (next L)" arbitrary: d L)
  case Nil
  then have "next L = []"
    by (cases "next L") simp_all
  with Nil.prems show ?case
    by (simp add: loop_end)
next
  case (Cons t S)
  from Cons.hyps(2) obtain ts where n: "next L = t # ts"
    by (cases "next L") auto
  define L1 where "L1 = snd (consume L)"
  define d1 where "d1 = (if id t = token_id RPAREN then d - 1
            else if id t = token_id LPAREN then d + 1 else d)"
  have sf: "surfaced (next L) = t # S"
    using Cons.hyps(2) by simp
  with Cons.prems(2) n have S: "S = surfaced (next L1)"
    using surfaced_step [of L t ts] by (simp add: L1_def)
  from Cons.prems(1) have pos: "0 < unat d"
    by (simp add: unat_gt_0)
  from Cons.prems(3) sf have b: "unat d + Suc (length S) < 2 ^ 64"
    by simp
  then have u: "unat d1 = count_step (unat d) t"
    unfolding d1_def using unat_count_step [OF Cons.prems(1)] by simp
  have e1: "\<not> ended L1"
    unfolding L1_def using Cons.prems(2) n by (rule step_not_ended)
  have c1: "current L1 = t # ts"
    using Cons.prems(2) n by (simp add: L1_def step_current)
  have "balanced_loop d L = balanced_loop d1 L1"
    unfolding d1_def L1_def by (rule loop_step [OF Cons.prems(1,2) n])
  with Cons.prems(4) have r: "balanced_loop d1 L1 = (Inr (), L')"
    by simp
  show ?case
  proof (cases "d1 = 0")
    case True
    with r have "L' = L1"
      by (simp add: loop_zero)
    moreover from True u have "count_step (unat d) t = 0"
      by simp
    with pos have "id t = token_id RPAREN"
      by (rule count_step_zero)
    ultimately show ?thesis
      using e1 c1 by (simp add: deref_def)
  next
    case False
    from b u count_step_le [of "unat d" t] S
    have b1: "unat d1 + length (surfaced (next L1)) < 2 ^ 64"
      by simp
    from Cons.hyps(1) [OF S False e1 b1 r] show ?thesis .
  qed
qed

lemma length_surfaced: "length (surfaced xs) \<le> length xs"
  by (cases xs) simp_all

lemma consumes_Suc_outer: "consumes (Suc k) L = snd (consume (consumes k L))"
  by (simp add: consumes_def)

lemma paren_depth_Nil: "paren_depth [] = 1"
  by (simp add: paren_depth_def)

text \<open>After a normal exit of the loop the final \<open>consume(Token::RPAREN, ...)\<close> succeeds.\<close>

lemma final_consume:
  assumes "\<not> ended L'" and "id (deref (current L')) = token_id RPAREN"
  shows "consume_tok RPAREN ''consume_until_balanced_paren should end in RPAREN'' L' =
           (Inr (next L'), snd (consume L'))"
  using assms by (simp add: consume_tok_def expect_def consume_not_ended)

text \<open>
  Claim C2. Let the cursor not be at the end (its current token is the opening parenthesis
  the caller consumed) and let the depth start at 1, go up by one on every \<open>LPAREN\<close> and
  down by one on every \<open>RPAREN\<close> among the tokens that \<open>consume()\<close> surfaces. If the
  depth is never 0, \<open>consume_until_balanced_paren\<close> throws a \<open>RawDataError\<close> with the
  unbalanced-parentheses diagnostic, once the whole stream is consumed. If the depth is 0
  for the first time after \<open>k\<close> tokens, then the \<open>k\<close>-th token is an \<open>RPAREN\<close>, it is the
  current token after \<open>k\<close> calls of \<open>consume()\<close>, and the function returns with the cursor
  one \<open>consume()\<close> further: the current token is then what was the lookahead behind that
  \<open>RPAREN\<close>. The stream is shorter than \<open>2 ^ 64 - 1\<close> tokens, as every stream of a
  \<open>std::string\<close> is.
\<close>

theorem balanced_paren_spec:
  assumes "\<not> ended L" and "length (next L) < 2 ^ 64 - 1"
  shows
    "((\<forall>k \<le> length (surfaced (next L)). paren_depth (take k (surfaced (next L))) \<noteq> 0) \<longrightarrow>
        consume_until_balanced_paren L =
          (Inl (Throw RawDataError
                 (ERROR_EOF_UNBALANCED_PARENS (err L)
                    (line_num (consumes (Suc (length (surfaced (next L)))) L)))),
           consumes (Suc (length (surfaced (next L)))) L)) \<and>
     (\<forall>k \<le> length (surfaced (next L)).
        paren_depth (take k (surfaced (next L))) = 0 \<and>
        (\<forall>j < k. paren_depth (take j (surfaced (next L))) \<noteq> 0) \<longrightarrow>
          0 < k \<and>
          id (surfaced (next L) ! (k - 1)) = token_id RPAREN \<and>
          deref (current (consumes k L)) = surfaced (next L) ! (k - 1) \<and>
          consume_until_balanced_paren L = (Inr (), consumes (Suc k) L) \<and>
          current (consumes (Suc k) L) = next (consumes k L))"
proof (intro conjI impI allI)
  have one: "(1 :: 64 word) \<noteq> 0"
    by simp
  from assms(2) length_surfaced [of "next L"]
  have b: "unat (1 :: 64 word) + length (surfaced (next L)) < 2 ^ 64"
    by simp
  {
    assume "\<forall>k \<le> length (surfaced (next L)). paren_depth (take k (surfaced (next L))) \<noteq> 0"
    then have "\<forall>k. 0 < k \<and> k \<le> length (surfaced (next L)) \<longrightarrow>
                 depth_from (unat (1 :: 64 word)) (take k (surfaced (next L))) \<noteq> 0"
      by (simp add: paren_depth_from)
    from loop_unbalanced [OF one assms(1) b this]
    show "consume_until_balanced_paren L =
          (Inl (Throw RawDataError
                 (ERROR_EOF_UNBALANCED_PARENS (err L)
                    (line_num (consumes (Suc (length (surfaced (next L)))) L)))),
           consumes (Suc (length (surfaced (next L)))) L)"
      by (simp add: consume_until_balanced_paren_def)
  }
  fix k
  assume kl: "k \<le> length (surfaced (next L))"
    and h: "paren_depth (take k (surfaced (next L))) = 0 \<and>
            (\<forall>j < k. paren_depth (take j (surfaced (next L))) \<noteq> 0)"
  from h show pos: "0 < k"
    by (cases k) (simp_all add: paren_depth_Nil)
  from h have z: "depth_from (unat (1 :: 64 word)) (take k (surfaced (next L))) = 0"
    and nz: "\<forall>j. 0 < j \<and> j < k \<longrightarrow>
               depth_from (unat (1 :: 64 word)) (take j (surfaced (next L))) \<noteq> 0"
    by (simp_all add: paren_depth_from)
  note lb = loop_balanced [OF one assms(1) b pos kl z nz]
  from lb show "id (surfaced (next L) ! (k - 1)) = token_id RPAREN"
    and "deref (current (consumes k L)) = surfaced (next L) ! (k - 1)"
    by simp_all
  from lb have e: "\<not> ended (consumes k L)"
    and r: "id (deref (current (consumes k L))) = token_id RPAREN"
    by simp_all
  from lb final_consume [OF e r]
  show "consume_until_balanced_paren L = (Inr (), consumes (Suc k) L)"
    by (simp add: consume_until_balanced_paren_def consumes_Suc_outer)
  from e show "current (consumes (Suc k) L) = next (consumes k L)"
    by (simp add: consumes_Suc_outer step_current)
qed

text \<open>The loop either exits normally or fails with one of the two end-of-input diagnostics.\<close>

lemma loop_outcome:
  assumes "d \<noteq> 0" and "unat d + length (surfaced (next L)) < 2 ^ 64"
  shows "(\<exists>L'. balanced_loop d L = (Inr (), L')) \<or>
         (\<exists>p n L'. balanced_loop d L = (Inl (Throw RawDataError (ERROR_EOF_REACHED p n)), L')) \<or>
         (\<exists>p n L'. balanced_loop d L =
                     (Inl (Throw RawDataError (ERROR_EOF_UNBALANCED_PARENS p n)), L'))"
proof (cases "ended L")
  case True
  with assms(1) show ?thesis
    by (simp add: loop_ended)
next
  case False
  let ?P = "\<lambda>k. 0 < k \<and> k \<le> length (surfaced (next L)) \<and>
                 depth_from (unat d) (take k (surfaced (next L))) = 0"
  show ?thesis
  proof (cases "\<exists>k. ?P k")
    case True
    then obtain k where k: "?P k" and least: "\<forall>j < k. \<not> ?P j"
      by (auto simp: exists_least_iff [of ?P])
    from k least
    have "\<forall>j. 0 < j \<and> j < k \<longrightarrow> depth_from (unat d) (take j (surfaced (next L))) \<noteq> 0"
      by auto
    with loop_balanced [OF assms(1) False assms(2), of k] k show ?thesis
      by blast
  next
    case False
    then have "\<forall>k. 0 < k \<and> k \<le> length (surfaced (next L)) \<longrightarrow>
                 depth_from (unat d) (take k (surfaced (next L))) \<noteq> 0"
      by blast
    from loop_unbalanced [OF assms(1) \<open>\<not> ended L\<close> assms(2) this] show ?thesis
      by blast
  qed
qed

text \<open>
  Claim C9. Whenever the loop of \<open>consume_until_balanced_paren\<close> exits normally, the
  current token is an \<open>RPAREN\<close>, so the \<open>expect\<close> of the final
  \<open>consume(Token::RPAREN, ...)\<close> passes; and \<open>consume_until_balanced_paren\<close> never
  fails with the token-mismatch diagnostic. The stream is shorter than \<open>2 ^ 64 - 1\<close>
  tokens, so that the \<open>size_t\<close> counter does not wrap around.
\<close>

theorem final_expect_cannot_fail:
  assumes "length (next L) < 2 ^ 64 - 1"
  shows
    "(\<forall>L'. balanced_loop 1 L = (Inr (), L') \<longrightarrow>
        id (deref (current L')) = token_id RPAREN \<and>
        expect RPAREN ''consume_until_balanced_paren should end in RPAREN'' L' = (Inr (), L')) \<and>
     (\<forall>p n e g m. fst (consume_until_balanced_paren L) \<noteq>
        Inl (Throw RawDataError (ERROR_UNEXPECTED_TOKEN p n e g m)))"
proof -
  have one: "(1 :: 64 word) \<noteq> 0"
    by simp
  from assms length_surfaced [of "next L"]
  have b: "unat (1 :: 64 word) + length (surfaced (next L)) < 2 ^ 64"
    by simp
  have exit: "\<not> ended L' \<and> id (deref (current L')) = token_id RPAREN"
    if r: "balanced_loop 1 L = (Inr (), L')" for L'
  proof (cases "ended L")
    case True
    with r show ?thesis
      by (simp add: loop_ended)
  next
    case False
    from loop_exit [OF one False b r] show ?thesis .
  qed
  have "fst (consume_until_balanced_paren L) \<noteq>
          Inl (Throw RawDataError (ERROR_UNEXPECTED_TOKEN p n e g m))" for p n e g m
  proof -
    from loop_outcome [OF one b] consider
      (ok) L' where "balanced_loop 1 L = (Inr (), L')"
      | (eof) p n L' where
          "balanced_loop 1 L = (Inl (Throw RawDataError (ERROR_EOF_REACHED p n)), L')"
      | (unb) p n L' where
          "balanced_loop 1 L = (Inl (Throw RawDataError (ERROR_EOF_UNBALANCED_PARENS p n)), L')"
      by blast
    then show ?thesis
    proof cases
      case ok
      from exit [OF ok] have "\<not> ended L'" "id (deref (current L')) = token_id RPAREN"
        by simp_all
      from final_consume [OF this] ok show ?thesis
        by (simp add: consume_until_balanced_paren_def)
    next
      case eof
      then show ?thesis
        by (simp add: consume_until_balanced_paren_def)
    next
      case unb
      then show ?thesis
        by (simp add: consume_until_balanced_paren_def)
    qed
  qed
  with exit show ?thesis
    by (simp add: expect_def)
qed

lemmas run_defs = consume_def ended_def skip_whitespace_def Let_def
  paren_depth_def line_num_def deref_def

lemma consumes_3: "consumes (Suc (Suc (Suc 0))) L = snd (consume (snd (consume (snd (consume L)))))"
  by (simp add: consumes_def)

lemma consumes_4:
  "consumes (Suc 3) L = snd (consume (snd (consume (snd (consume (snd (consume L)))))))"
  by (simp add: consumes_def numeral_3_eq_3)

theorem balanced_paren_spec_witness:
  "consume_until_balanced_paren
     \<lparr>debug = False, err = ''f'',
      current = [\<lparr>id = 4, str = ''(''\<rparr>, \<lparr>id = 4, str = ''(''\<rparr>, \<lparr>id = 1, str = '' ''\<rparr>,
                 \<lparr>id = 5, str = '')''\<rparr>, \<lparr>id = 5, str = '')''\<rparr>, \<lparr>id = 8, str = '',''\<rparr>],
      next = [\<lparr>id = 4, str = ''(''\<rparr>, \<lparr>id = 1, str = '' ''\<rparr>,
              \<lparr>id = 5, str = '')''\<rparr>, \<lparr>id = 5, str = '')''\<rparr>, \<lparr>id = 8, str = '',''\<rparr>],
      current_line_num = 1, next_line_num = 1\<rparr> =
     (Inr (),
      \<lparr>debug = False, err = ''f'', current = [\<lparr>id = 8, str = '',''\<rparr>], next = [],
       current_line_num = 1, next_line_num = 1\<rparr>) \<and>
   consume_until_balanced_paren
     \<lparr>debug = False, err = ''f'',
      current = [\<lparr>id = 4, str = ''(''\<rparr>, \<lparr>id = 4, str = ''(''\<rparr>,
                 \<lparr>id = 2, str = [CHR 0x0A]\<rparr>, \<lparr>id = 5, str = '')''\<rparr>],
      next = [\<lparr>id = 4, str = ''(''\<rparr>, \<lparr>id = 2, str = [CHR 0x0A]\<rparr>, \<lparr>id = 5, str = '')''\<rparr>],
      current_line_num = 1, next_line_num = 1\<rparr> =
     (Inl (Throw RawDataError (ERROR_EOF_UNBALANCED_PARENS ''f'' 2)),
      \<lparr>debug = False, err = ''f'', current = [], next = [],
       current_line_num = 2, next_line_num = 2\<rparr>)"
proof -
  let ?A = "\<lparr>debug = False, err = ''f'',
      current = [\<lparr>id = 4, str = ''(''\<rparr>, \<lparr>id = 4, str = ''(''\<rparr>, \<lparr>id = 1, str = '' ''\<rparr>,
                 \<lparr>id = 5, str = '')''\<rparr>, \<lparr>id = 5, str = '')''\<rparr>, \<lparr>id = 8, str = '',''\<rparr>],
      next = [\<lparr>id = 4, str = ''(''\<rparr>, \<lparr>id = 1, str = '' ''\<rparr>,
              \<lparr>id = 5, str = '')''\<rparr>, \<lparr>id = 5, str = '')''\<rparr>, \<lparr>id = 8, str = '',''\<rparr>],
      current_line_num = 1, next_line_num = 1\<rparr>"
  let ?B = "\<lparr>debug = False, err = ''f'',
      current = [\<lparr>id = 4, str = ''(''\<rparr>, \<lparr>id = 4, str = ''(''\<rparr>,
                 \<lparr>id = 2, str = [CHR 0x0A]\<rparr>, \<lparr>id = 5, str = '')''\<rparr>],
      next = [\<lparr>id = 4, str = ''(''\<rparr>, \<lparr>id = 2, str = [CHR 0x0A]\<rparr>, \<lparr>id = 5, str = '')''\<rparr>],
      current_line_num = 1, next_line_num = 1\<rparr>"
  have sA: "surfaced (next ?A) =
      [\<lparr>id = 4, str = ''(''\<rparr>, \<lparr>id = 5, str = '')''\<rparr>, \<lparr>id = 5, str = '')''\<rparr>,
       \<lparr>id = 8, str = '',''\<rparr>]"
    and sB: "surfaced (next ?B) = [\<lparr>id = 4, str = ''(''\<rparr>, \<lparr>id = 5, str = '')''\<rparr>]"
    by (simp_all add: trivia_def)
  have eA: "\<not> ended ?A" and eB: "\<not> ended ?B"
    by (simp_all add: ended_def)
  have lA: "length (next ?A) < 2 ^ 64 - 1" and lB: "length (next ?B) < 2 ^ 64 - 1"
    by simp_all
  have kA: "(3::nat) \<le> length (surfaced (next ?A))"
    by (simp add: trivia_def)
  have dA: "paren_depth (take 3 (surfaced (next ?A))) = 0 \<and>
            (\<forall>j < 3. paren_depth (take j (surfaced (next ?A))) \<noteq> 0)"
  proof -
    have "paren_depth (take j (surfaced (next ?A))) \<noteq> 0" if "j < 3" for j
    proof -
      from that have "j = 0 \<or> j = Suc 0 \<or> j = Suc (Suc 0)"
        by arith
      then show ?thesis
        by (elim disjE) (simp_all add: trivia_def paren_depth_def)
    qed
    then show ?thesis
      by (simp add: trivia_def paren_depth_def)
  qed
  have dB: "\<forall>k \<le> length (surfaced (next ?B)). paren_depth (take k (surfaced (next ?B))) \<noteq> 0"
  proof (intro allI impI)
    fix k assume "k \<le> length (surfaced (next ?B))"
    then have "k = 0 \<or> k = Suc 0 \<or> k = Suc (Suc 0)"
      by (simp add: trivia_def) arith
    then show "paren_depth (take k (surfaced (next ?B))) \<noteq> 0"
      by (elim disjE) (simp_all add: trivia_def paren_depth_def)
  qed
  from balanced_paren_spec [OF eA lA] kA dA
  have "consume_until_balanced_paren ?A = (Inr (), consumes (Suc 3) ?A)"
    by blast
  moreover have "consumes (Suc 3) ?A =
      \<lparr>debug = False, err = ''f'', current = [\<lparr>id = 8, str = '',''\<rparr>], next = [],
       current_line_num = 1, next_line_num = 1\<rparr>"
    unfolding consumes_4 by (simp add: run_defs)
  moreover from balanced_paren_spec [OF eB lB] dB
  have "consume_until_balanced_paren ?B =
          (Inl (Throw RawDataError
                 (ERROR_EOF_UNBALANCED_PARENS (err ?B)
                    (line_num (consumes (Suc (length (surfaced (next ?B)))) ?B)))),
           consumes (Suc (length (surfaced (next ?B)))) ?B)"
    by blast
  moreover have "length (surfaced (next ?B)) = Suc (Suc 0)"
    by (simp add: trivia_def)
  moreover have "consumes (Suc (Suc (Suc 0))) ?B =
      \<lparr>debug = False, err = ''f'', current = [], next = [],
       current_line_num = 2, next_line_num = 2\<rparr>"
    unfolding consumes_3 by (simp add: run_defs)
  ultimately show ?thesis
    by (simp only: line_num_def NeurolucidaLexer.simps)
qed

theorem final_expect_cannot_fail_witness:
  "balanced_loop 1
     \<lparr>debug = False, err = ''f'',
      current = [\<lparr>id = 4, str = ''(''\<rparr>, \<lparr>id = 12, str = ''1''\<rparr>, \<lparr>id = 5, str = '')''\<rparr>],
      next = [\<lparr>id = 12, str = ''1''\<rparr>, \<lparr>id = 5, str = '')''\<rparr>],
      current_line_num = 1, next_line_num = 1\<rparr> =
     (Inr (),
      \<lparr>debug = False, err = ''f'', current = [\<lparr>id = 5, str = '')''\<rparr>], next = [],
       current_line_num = 1, next_line_num = 1\<rparr>) \<and>
   expect RPAREN ''consume_until_balanced_paren should end in RPAREN''
     \<lparr>debug = False, err = ''f'', current = [\<lparr>id = 5, str = '')''\<rparr>], next = [],
       current_line_num = 1, next_line_num = 1\<rparr> =
     (Inr (),
      \<lparr>debug = False, err = ''f'', current = [\<lparr>id = 5, str = '')''\<rparr>], next = [],
       current_line_num = 1, next_line_num = 1\<rparr>)"
proof -
  let ?A = "\<lparr>debug = False, err = ''f'',
      current = [\<lparr>id = 4, str = ''(''\<rparr>, \<lparr>id = 12, str = ''1''\<rparr>, \<lparr>id = 5, str = '')''\<rparr>],
      next = [\<lparr>id = 12, str = ''1''\<rparr>, \<lparr>id = 5, str = '')''\<rparr>],
      current_line_num = 1, next_line_num = 1\<rparr>"
  let ?Z = "\<lparr>debug = False, err = ''f'', current = [\<lparr>id = 5, str = '')''\<rparr>], next = [],
       current_line_num = 1, next_line_num = 1\<rparr>"
  have l: "length (next ?A) < 2 ^ 64 - 1"
    by simp
  have e: "\<not> ended ?A"
    by (simp add: ended_def)
  have 1: "balanced_loop 1 ?A = balanced_loop 1 (snd (consume ?A))"
    using loop_step [of 1 ?A "\<lparr>id = 12, str = ''1''\<rparr>" "[\<lparr>id = 5, str = '')''\<rparr>]"] e
    by simp
  have c1: "snd (consume ?A) =
      \<lparr>debug = False, err = ''f'',
       current = [\<lparr>id = 12, str = ''1''\<rparr>, \<lparr>id = 5, str = '')''\<rparr>],
       next = [\<lparr>id = 5, str = '')''\<rparr>], current_line_num = 1, next_line_num = 1\<rparr>"
    (is "_ = ?M")
    by (simp add: run_defs)
  have e2: "\<not> ended ?M"
    by (simp add: ended_def)
  have 2: "balanced_loop 1 ?M = balanced_loop 0 (snd (consume ?M))"
    using loop_step [of 1 ?M "\<lparr>id = 5, str = '')''\<rparr>" "[]"] e2
    by simp
  have c2: "snd (consume ?M) = ?Z"
    by (simp add: run_defs)
  from 1 2 c1 c2 have r: "balanced_loop 1 ?A = (Inr (), ?Z)"
    by (simp add: loop_zero)
  from final_expect_cannot_fail [OF l, THEN conjunct1, rule_format, OF r] r show ?thesis
    by simp
qed


section \<open>The error taxonomy\<close>














section \<open>Determinism\<close>






end
